theory Spec2Isabelle
  imports Main "HOL-Library.Char_ord" "HOL-Library.List_Lexorder"
    "HOL-Library.Product_Lexorder" "HOL-Library.Multiset" "HOL-Library.Monad_Syntax"
begin

section \<open>The resource lifecycle analyzer of ultimate\_bug\_scanner\<close>

text \<open>
  This theory embeds \<^verbatim>\<open>modules/helpers/resource_lifecycle_py.py\<close>: the
  signature registry, the scope stack with its alias tables, the \<^verbatim>\<open>Analyzer\<close>
  node visitor, the reporter and the per-file driver \<^verbatim>\<open>analyze\<close>.

  Conventions of the embedding.
  \<^item> Python strings are \<open>string\<close>; an \<^verbatim>\<open>Optional[str]\<close> is a \<open>string option\<close>.
    Python's truth test on such a value (\<^verbatim>\<open>if name:\<close>, \<^verbatim>\<open>a or b\<close>) is false for
    \<^verbatim>\<open>None\<close> and for the empty string.
  \<^item> The \<^verbatim>\<open>ResourceRecord\<close> objects are shared between \<^verbatim>\<open>Analyzer.records\<close> and
    the \<^verbatim>\<open>by_name\<close> lists of the scopes, and \<^verbatim>\<open>_mark_released\<close> mutates them in
    place. The list \<open>records\<close> is the store; a \<open>by_name\<close> entry is the index of
    the record in that list (records are only ever appended).
  \<^item> \<^verbatim>\<open>id(node)\<close> of a call node is the first field of \<open>Call\<close>; all nodes of one
    tree are alive together, so the identities of a parsed tree are distinct.
  \<^item> \<^verbatim>\<open>scope_stack\<close> is kept in Python's order: the root scope first, the current
    scope last. Reading \<^verbatim>\<open>scope_stack[-1]\<close> or popping an empty list raises
    \<^verbatim>\<open>IndexError\<close>; the visitor therefore returns an \<open>option\<close>, \<open>None\<close> being
    that exception.
\<close>

subsection \<open>Syntax trees\<close>

text \<open>
  The node classes the visitor distinguishes, with the fields it reads. Every other
  class of \<^verbatim>\<open>ast\<close> (\<^verbatim>\<open>Expr\<close>, \<^verbatim>\<open>If\<close>, \<^verbatim>\<open>For\<close>, \<^verbatim>\<open>ClassDef\<close>, \<^verbatim>\<open>Lambda\<close>,
  \<^verbatim>\<open>BinOp\<close>, \<^verbatim>\<open>Constant\<close>, comprehensions, ...) is handled by
  \<^verbatim>\<open>generic_visit\<close> alone and is \<open>Other\<close> with its child nodes in field order.
  \<open>Call i l func args keywords\<close> carries \<^verbatim>\<open>id(node)\<close>, \<^verbatim>\<open>lineno\<close>, \<^verbatim>\<open>func\<close>,
  \<^verbatim>\<open>args\<close> and the \<^verbatim>\<open>value\<close> of each keyword (the keyword names are never read).
  A function definition carries its child nodes in field order (argument defaults and
  annotations, body, decorators, return annotation). A \<^verbatim>\<open>withitem\<close> is the pair of
  its \<^verbatim>\<open>context_expr\<close> and \<^verbatim>\<open>optional_vars\<close>; an import alias is the pair of its
  \<^verbatim>\<open>name\<close> and \<^verbatim>\<open>asname\<close>.
\<close>

datatype node =
    Name string
  | Attribute node string
  | Call nat nat node "node list" "node list"
  | Await node
  | Starred node
  | Tuple "node list"
  | List "node list"
  | Set "node list"
  | FunctionDef "node list"
  | AsyncFunctionDef "node list"
  | Import "(string \<times> string option) list"
  | ImportFrom "string option" "(string \<times> string option) list"
  | With "(node \<times> node option) list" "node list"
  | AsyncWith "(node \<times> node option) list" "node list"
  | Assign "node list" node
  | AnnAssign node node "node option"
  | Return "node option"
  | Yield "node option"
  | YieldFrom node
  | Module "node list"
  | Other "node list"

subsection \<open>Signature registry\<close>

definition TARGET_SIGS :: "(string option \<times> string) \<rightharpoonup> string" where
  "TARGET_SIGS = map_of
    [((None, ''open''), ''file_handle''),
     ((Some ''builtins'', ''open''), ''file_handle''),
     ((Some ''io'', ''open''), ''file_handle''),
     ((Some ''pathlib'', ''open''), ''file_handle''),
     ((Some ''pathlib.Path'', ''open''), ''file_handle''),
     ((Some ''tempfile'', ''NamedTemporaryFile''), ''file_handle''),
     ((Some ''tempfile'', ''TemporaryFile''), ''file_handle''),
     ((Some ''tempfile'', ''SpooledTemporaryFile''), ''file_handle''),
     ((Some ''socket'', ''socket''), ''socket_handle''),
     ((Some ''socket'', ''create_connection''), ''socket_handle''),
     ((Some ''socket'', ''socketpair''), ''socket_handle''),
     ((Some ''subprocess'', ''Popen''), ''popen_handle''),
     ((Some ''asyncio'', ''create_task''), ''asyncio_task'')]"

text \<open>A dict keeps insertion order, and \<^verbatim>\<open>_handle_release\<close> iterates it: an
  association list.\<close>

definition RELEASE_METHODS :: "(string \<times> string list) list" where
  "RELEASE_METHODS =
    [(''file_handle'', [''close'']),
     (''socket_handle'', [''close'', ''shutdown'']),
     (''popen_handle'', [''wait'', ''communicate'', ''terminate'', ''kill'']),
     (''asyncio_task'', [''cancel''])]"

definition TASK_RELEASE_SIGS :: "(string option \<times> string) set" where
  "TASK_RELEASE_SIGS =
    {(Some ''asyncio'', ''gather''), (Some ''asyncio'', ''wait''), (Some ''asyncio'', ''wait_for'')}"

text \<open>\<^verbatim>\<open>MESSAGE_TEMPLATES.get(kind, "Resource not released").format(name=subject)\<close>.\<close>

definition format_message :: "string \<Rightarrow> string \<Rightarrow> string" where
  "format_message k subject =
    (if k = ''file_handle'' then
       ''File handle '' @ subject @ '' opened without context manager or close()''
     else if k = ''socket_handle'' then ''Socket '' @ subject @ '' opened without close()''
     else if k = ''popen_handle'' then
       ''subprocess handle '' @ subject @ '' never waited/terminated''
     else if k = ''asyncio_task'' then
       ''asyncio task '' @ subject @ '' neither awaited nor cancelled''
     else ''Resource not released'')"

subsection \<open>Records, scopes and the analyzer state\<close>

record ResourceRecord =
  name :: "string option"
  kind :: string
  lineno :: nat
  released :: bool

record Scope =
  aliases :: "string \<rightharpoonup> (string option \<times> string option)"
  by_name :: "string \<rightharpoonup> nat list"

record Analyzer =
  records :: "ResourceRecord list"
  safe_calls :: "nat set"
  assigned_calls :: "nat set"
  scope_stack :: "Scope list"

text \<open>\<^verbatim>\<open>Scope()\<close> and \<^verbatim>\<open>Analyzer(tree)\<close>.\<close>

definition new_Scope :: Scope where
  "new_Scope = \<lparr>aliases = Map.empty, by_name = Map.empty\<rparr>"

definition new_Analyzer :: Analyzer where
  "new_Analyzer =
    \<lparr>records = [], safe_calls = {}, assigned_calls = {}, scope_stack = [new_Scope]\<rparr>"

text \<open>Python's truth test of an optional string, and \<^verbatim>\<open>a or b\<close>.\<close>

definition truthy :: "string option \<Rightarrow> bool" where
  "truthy x = (case x of None \<Rightarrow> False | Some v \<Rightarrow> v \<noteq> [])"

definition py_or :: "string option \<Rightarrow> string \<Rightarrow> string" where
  "py_or x y = (case x of None \<Rightarrow> y | Some v \<Rightarrow> if v \<noteq> [] then v else y)"

text \<open>\<^verbatim>\<open>_lookup_alias\<close>: the scopes from the innermost outward.\<close>

fun lookup_scopes :: "Scope list \<Rightarrow> string \<Rightarrow> string option \<times> string option" where
  "lookup_scopes [] n = (None, None)"
| "lookup_scopes (sc # scs) n =
    (case aliases sc n of Some v \<Rightarrow> v | None \<Rightarrow> lookup_scopes scs n)"

definition lookup_alias :: "Scope list \<Rightarrow> string \<Rightarrow> string option \<times> string option" where
  "lookup_alias stack n = lookup_scopes (rev stack) n"

subsection \<open>Call signatures\<close>

fun dotted_name :: "node \<Rightarrow> string option" where
  "dotted_name (Name i) = Some i"
| "dotted_name (Attribute v a) =
    (case dotted_name v of
       None \<Rightarrow> None
     | Some b \<Rightarrow> if b \<noteq> [] then Some (b @ ''.'' @ a) else None)"
| "dotted_name _ = None"

text \<open>\<^verbatim>\<open>_call_signature\<close> is only ever applied to a call node; on any other node
  the model answers \<open>None\<close>.\<close>

fun call_signature :: "Scope list \<Rightarrow> node \<Rightarrow> (string option \<times> string) option" where
  "call_signature st (Call i l (Name fid) a k) =
    (case lookup_alias st fid of
       (module, obj) \<Rightarrow>
         (case obj of
            Some ob \<Rightarrow> if ob \<noteq> [] then Some (module, ob) else Some (module, fid)
          | None \<Rightarrow> Some (module, fid)))"
| "call_signature st (Call i l (Attribute (Name bid) attr) a k) =
    (case lookup_alias st bid of (module, obj) \<Rightarrow> Some (Some (py_or module bid), attr))"
| "call_signature st (Call i l (Attribute (Attribute v b) attr) a k) =
    (case dotted_name (Attribute v b) of
       None \<Rightarrow> None
     | Some d \<Rightarrow> if d \<noteq> [] then Some (Some d, attr) else None)"
| "call_signature st (Call i l (Attribute (Call i' l' f' a' k') attr) a k) =
    (case call_signature st (Call i' l' f' a' k') of
       None \<Rightarrow> None
     | Some (module, obj) \<Rightarrow>
         (let module_name = py_or module [];
              module_name =
                (if obj \<noteq> [] then
                   (case module of
                      None \<Rightarrow> obj
                    | Some m \<Rightarrow> if m \<noteq> [] then m @ ''.'' @ obj else obj)
                 else module_name)
          in Some (Some (if module_name \<noteq> [] then module_name else obj), attr)))"
| "call_signature st _ = None"

definition call_signature_from_expr ::
  "Scope list \<Rightarrow> node \<Rightarrow> (string option \<times> string) option" where
  "call_signature_from_expr st e = (case e of Call i l f a k \<Rightarrow> call_signature st e | _ \<Rightarrow> None)"

subsection \<open>Record bookkeeping\<close>

text \<open>\<^verbatim>\<open>self.current_scope\<close> is \<^verbatim>\<open>self.scope_stack[-1]\<close>: an \<^verbatim>\<open>IndexError\<close> on
  the empty list. \<open>update_current f\<close> mutates the current scope object in place.\<close>

definition update_current :: "(Scope \<Rightarrow> Scope) \<Rightarrow> Analyzer \<Rightarrow> Analyzer option" where
  "update_current f s =
    (if scope_stack s = [] then None
     else Some (s\<lparr>scope_stack := butlast (scope_stack s) @ [f (last (scope_stack s))]\<rparr>))"

text \<open>\<^verbatim>\<open>_add_record\<close>: the new record is appended to \<^verbatim>\<open>records\<close> and, under a
  non-empty name, to \<^verbatim>\<open>current_scope.by_name.setdefault(name, [])\<close>.\<close>

definition add_record :: "string option \<Rightarrow> string \<Rightarrow> nat \<Rightarrow> Analyzer \<Rightarrow> Analyzer option" where
  "add_record nm k ln s =
    (let idx = length (records s);
         s1 = s\<lparr>records := records s @ [\<lparr>name = nm, kind = k, lineno = ln, released = False\<rparr>]\<rparr>
     in case nm of
          None \<Rightarrow> Some s1
        | Some n \<Rightarrow>
            if n = [] then Some s1
            else update_current
              (\<lambda>sc. sc\<lparr>by_name := (by_name sc)
                 (n \<mapsto> (case by_name sc n of None \<Rightarrow> [] | Some es \<Rightarrow> es) @ [idx])\<rparr>) s1)"

text \<open>
  \<^verbatim>\<open>_mark_released\<close>. Every call site passes \<^verbatim>\<open>check_all_scopes=True\<close>, so the
  scopes searched are \<^verbatim>\<open>reversed(self.scope_stack)\<close>. \<open>mark_entries\<close> is the inner
  loop over \<^verbatim>\<open>reversed(entries)\<close>: \<open>Some\<close> is the \<^verbatim>\<open>return\<close> after marking a
  record, \<open>None\<close> the loop running to its end.
\<close>

fun mark_entries ::
  "nat list \<Rightarrow> string option \<Rightarrow> ResourceRecord list \<Rightarrow> ResourceRecord list option" where
  "mark_entries [] k rs = None"
| "mark_entries (e # es) k rs =
    (if \<not> released (rs ! e) \<and> (k = None \<or> Some (kind (rs ! e)) = k)
     then Some (rs[e := (rs ! e)\<lparr>released := True\<rparr>])
     else mark_entries es k rs)"

fun mark_scopes ::
  "Scope list \<Rightarrow> string \<Rightarrow> string option \<Rightarrow> ResourceRecord list \<Rightarrow> ResourceRecord list" where
  "mark_scopes [] n k rs = rs"
| "mark_scopes (sc # scs) n k rs =
    (case by_name sc n of
       None \<Rightarrow> mark_scopes scs n k rs
     | Some entries \<Rightarrow>
         if entries = [] then mark_scopes scs n k rs
         else (case mark_entries (rev entries) k rs of
                 Some rs' \<Rightarrow> rs'
               | None \<Rightarrow> mark_scopes scs n k rs))"

definition mark_released :: "string option \<Rightarrow> string option \<Rightarrow> Analyzer \<Rightarrow> Analyzer" where
  "mark_released nm k s =
    (case nm of
       None \<Rightarrow> s
     | Some n \<Rightarrow>
         if n = [] then s
         else s\<lparr>records := mark_scopes (rev (scope_stack s)) n k (records s)\<rparr>)"

subsection \<open>Imports\<close>

fun visit_Import :: "(string \<times> string option) list \<Rightarrow> Analyzer \<Rightarrow> Analyzer option" where
  "visit_Import [] s = Some s"
| "visit_Import ((nm, asname) # names) s =
    update_current (\<lambda>sc. sc\<lparr>aliases := (aliases sc)(py_or asname nm \<mapsto> (Some nm, None))\<rparr>) s
      \<bind> visit_Import names"

fun visit_ImportFrom ::
  "string option \<Rightarrow> (string \<times> string option) list \<Rightarrow> Analyzer \<Rightarrow> Analyzer option" where
  "visit_ImportFrom module [] s = Some s"
| "visit_ImportFrom module ((nm, asname) # names) s =
    (if nm = ''*'' then visit_ImportFrom module names s
     else update_current
        (\<lambda>sc. sc\<lparr>aliases := (aliases sc)(py_or asname nm \<mapsto> (Some (py_or module []), Some nm))\<rparr>) s
      \<bind> visit_ImportFrom module names)"

subsection \<open>Scoped acquisition\<close>

fun mark_safe_calls :: "node \<Rightarrow> Analyzer \<Rightarrow> Analyzer" where
  "mark_safe_calls (Call i l f a k) s =
    (let s1 = (case call_signature (scope_stack s) (Call i l f a k) of
                 None \<Rightarrow> s
               | Some sig \<Rightarrow>
                   if TARGET_SIGS sig \<noteq> None then s\<lparr>safe_calls := insert i (safe_calls s)\<rparr>
                   else s)
     in fold mark_safe_calls k (fold mark_safe_calls a s1))"
| "mark_safe_calls (Attribute v a) s = mark_safe_calls v s"
| "mark_safe_calls _ s = s"

definition mark_context_safe :: "(node \<times> node option) list \<Rightarrow> Analyzer \<Rightarrow> Analyzer" where
  "mark_context_safe items s = fold (\<lambda>item. mark_safe_calls (fst item)) items s"

subsection \<open>Assignments\<close>

fun collect_names :: "node \<Rightarrow> string list" where
  "collect_names (Tuple elts) = concat (map collect_names elts)"
| "collect_names (List elts) = concat (map collect_names elts)"
| "collect_names (Name i) = [i]"
| "collect_names (Attribute v a) =
    (case dotted_name (Attribute v a) of
       None \<Rightarrow> []
     | Some dotted \<Rightarrow> if dotted \<noteq> [] then [dotted] else [])"
| "collect_names _ = []"

fun add_records :: "string list \<Rightarrow> string \<Rightarrow> nat \<Rightarrow> Analyzer \<Rightarrow> Analyzer option" where
  "add_records [] k ln s = Some s"
| "add_records (n # ns) k ln s = add_record (Some n) k ln s \<bind> add_records ns k ln"

definition handle_assignment :: "node list \<Rightarrow> node \<Rightarrow> Analyzer \<Rightarrow> Analyzer option" where
  "handle_assignment targets v s =
    (case v of
       Call i l f a k \<Rightarrow>
         (case call_signature_from_expr (scope_stack s) v of
            None \<Rightarrow> Some s
          | Some sig \<Rightarrow>
              (case TARGET_SIGS sig of
                 None \<Rightarrow> Some s
               | Some kd \<Rightarrow>
                   if kd = [] then Some s
                   else
                     (let s1 = s\<lparr>assigned_calls := insert i (assigned_calls s)\<rparr>;
                          names = concat (map collect_names targets)
                      in if names = [] then add_record None kd l s1
                         else add_records names kd l s1)))
     | _ \<Rightarrow> Some s)"

subsection \<open>Releases\<close>

fun mark_task_released_from_expr :: "node \<Rightarrow> Analyzer \<Rightarrow> Analyzer" where
  "mark_task_released_from_expr (Name i) s = mark_released (Some i) (Some ''asyncio_task'') s"
| "mark_task_released_from_expr (Call i l f a k) s =
    (case call_signature (scope_stack s) (Call i l f a k) of
       None \<Rightarrow> s
     | Some sig \<Rightarrow>
         if TARGET_SIGS sig = Some ''asyncio_task''
         then s\<lparr>safe_calls := insert i (safe_calls s)\<rparr> else s)"
| "mark_task_released_from_expr (Starred v) s = mark_task_released_from_expr v s"
| "mark_task_released_from_expr (Tuple elts) s = fold mark_task_released_from_expr elts s"
| "mark_task_released_from_expr (List elts) s = fold mark_task_released_from_expr elts s"
| "mark_task_released_from_expr (Set elts) s = fold mark_task_released_from_expr elts s"
| "mark_task_released_from_expr _ s = s"

text \<open>\<^verbatim>\<open>RELEASE_METHODS.get(kind, set())\<close>, and the loop of \<^verbatim>\<open>_handle_release\<close>
  over \<^verbatim>\<open>RELEASE_METHODS.items()\<close> that stops at the first kind whose methods hold
  the method name.\<close>

definition release_methods :: "string \<Rightarrow> string list" where
  "release_methods k = (case map_of RELEASE_METHODS k of None \<Rightarrow> [] | Some ms \<Rightarrow> ms)"

definition method_kind :: "string \<Rightarrow> string option" where
  "method_kind m = map_option fst (find (\<lambda>(k, ms). m \<in> set ms) RELEASE_METHODS)"

text \<open>The chained case of \<^verbatim>\<open>_handle_release\<close>: \<^verbatim>\<open>func.value\<close> is itself a call.\<close>

definition mark_chained :: "node \<Rightarrow> string \<Rightarrow> Analyzer \<Rightarrow> Analyzer" where
  "mark_chained v attr s =
    (case v of
       Call i l f a k \<Rightarrow>
         (case call_signature (scope_stack s) v of
            None \<Rightarrow> s
          | Some base_sig \<Rightarrow>
              (case TARGET_SIGS base_sig of
                 None \<Rightarrow> s
               | Some base_kind \<Rightarrow>
                   if base_kind \<noteq> [] \<and> attr \<in> set (release_methods base_kind)
                   then s\<lparr>safe_calls := insert i (safe_calls s)\<rparr> else s))
     | _ \<Rightarrow> s)"

text \<open>\<^verbatim>\<open>_handle_release\<close> has two parts: the block under
  \<^verbatim>\<open>isinstance(func, ast.Attribute)\<close>, and the block for a call of a task-consuming
  combinator.\<close>

definition release_by_method :: "node \<Rightarrow> Analyzer \<Rightarrow> Analyzer" where
  "release_by_method func s =
    (case func of
       Attribute v attr \<Rightarrow>
         (let s' = mark_chained v attr s
          in case method_kind attr of
               None \<Rightarrow> s'
             | Some kd \<Rightarrow> mark_released (dotted_name v) (Some kd) s')
     | _ \<Rightarrow> s)"

definition release_task_args :: "node \<Rightarrow> Analyzer \<Rightarrow> Analyzer" where
  "release_task_args c s =
    (case c of
       Call i l func a k \<Rightarrow>
         (case call_signature (scope_stack s) c of
            None \<Rightarrow> s
          | Some sig \<Rightarrow>
              if sig \<in> TASK_RELEASE_SIGS
              then fold mark_task_released_from_expr k (fold mark_task_released_from_expr a s)
              else s)
     | _ \<Rightarrow> s)"

definition handle_release :: "node \<Rightarrow> Analyzer \<Rightarrow> Analyzer" where
  "handle_release c s =
    (case c of
       Call i l func a k \<Rightarrow> release_task_args c (release_by_method func s)
     | _ \<Rightarrow> s)"

text \<open>The part of \<^verbatim>\<open>visit_Call\<close> before \<^verbatim>\<open>_handle_release\<close>, and the part of
  \<^verbatim>\<open>visit_Await\<close> before \<^verbatim>\<open>generic_visit\<close>.\<close>

definition record_call :: "node \<Rightarrow> Analyzer \<Rightarrow> Analyzer option" where
  "record_call c s =
    (case c of
       Call i l f a k \<Rightarrow>
         if i \<notin> assigned_calls s then
           (case call_signature (scope_stack s) c of
              None \<Rightarrow> Some s
            | Some sig \<Rightarrow>
                (case TARGET_SIGS sig of
                   None \<Rightarrow> Some s
                 | Some kd \<Rightarrow> if i \<notin> safe_calls s then add_record None kd l s else Some s))
         else Some s
     | _ \<Rightarrow> Some s)"

definition await_release :: "node \<Rightarrow> Analyzer \<Rightarrow> Analyzer" where
  "await_release v s =
    (case v of
       Name i \<Rightarrow> mark_released (Some i) (Some ''asyncio_task'') s
     | Call i l f a k \<Rightarrow>
         (case call_signature (scope_stack s) v of
            None \<Rightarrow> s
          | Some sig \<Rightarrow>
              if TARGET_SIGS sig = Some ''asyncio_task''
              then s\<lparr>safe_calls := insert i (safe_calls s)\<rparr> else s)
     | _ \<Rightarrow> s)"

subsection \<open>The visitor\<close>

definition push_scope :: "Analyzer \<Rightarrow> Analyzer" where
  "push_scope s = s\<lparr>scope_stack := scope_stack s @ [new_Scope]\<rparr>"

definition pop_scope :: "Analyzer \<Rightarrow> Analyzer option" where
  "pop_scope s =
    (if scope_stack s = [] then None else Some (s\<lparr>scope_stack := butlast (scope_stack s)\<rparr>))"

text \<open>
  \<open>visit\<close> dispatches on the node class as \<^verbatim>\<open>NodeVisitor.visit\<close> does;
  \<open>visit_list\<close> is \<^verbatim>\<open>generic_visit\<close> over a list of child nodes, \<open>visit_opt\<close> over
  an optional child, \<open>visit_items\<close> over the \<^verbatim>\<open>withitem\<close> nodes (each visits its
  \<^verbatim>\<open>context_expr\<close>, then its \<^verbatim>\<open>optional_vars\<close>). The handlers of return and
  yield call \<^verbatim>\<open>_handle_return_yield\<close>, which does nothing, before
  \<^verbatim>\<open>generic_visit\<close>.
\<close>

function (sequential) visit :: "node \<Rightarrow> Analyzer \<Rightarrow> Analyzer option"
  and visit_list :: "node list \<Rightarrow> Analyzer \<Rightarrow> Analyzer option"
  and visit_opt :: "node option \<Rightarrow> Analyzer \<Rightarrow> Analyzer option"
  and visit_items :: "(node \<times> node option) list \<Rightarrow> Analyzer \<Rightarrow> Analyzer option" where
  "visit (Name i) s = Some s"
| "visit (Attribute v a) s = visit v s"
| "visit (Call i l f a k) s =
    record_call (Call i l f a k) s \<bind> (\<lambda>s1.
    visit f (handle_release (Call i l f a k) s1) \<bind> (\<lambda>s2.
    visit_list a s2 \<bind> (\<lambda>s3.
    visit_list k s3)))"
| "visit (Await v) s = visit v (await_release v s)"
| "visit (Starred v) s = visit v s"
| "visit (Tuple elts) s = visit_list elts s"
| "visit (List elts) s = visit_list elts s"
| "visit (Set elts) s = visit_list elts s"
| "visit (FunctionDef children) s = visit_list children (push_scope s) \<bind> pop_scope"
| "visit (AsyncFunctionDef children) s = visit_list children (push_scope s) \<bind> pop_scope"
| "visit (Import names) s = visit_Import names s"
| "visit (ImportFrom module names) s = visit_ImportFrom module names s"
| "visit (With items body) s =
    visit_items items (mark_context_safe items s) \<bind> (\<lambda>s1. visit_list body s1)"
| "visit (AsyncWith items body) s =
    visit_items items (mark_context_safe items s) \<bind> (\<lambda>s1. visit_list body s1)"
| "visit (Assign targets v) s =
    handle_assignment targets v s \<bind> (\<lambda>s1.
    visit_list targets s1 \<bind> (\<lambda>s2.
    visit v s2))"
| "visit (AnnAssign target annotation v) s =
    (case v of None \<Rightarrow> Some s | Some e \<Rightarrow> handle_assignment [target] e s) \<bind> (\<lambda>s1.
    visit target s1 \<bind> (\<lambda>s2.
    visit annotation s2 \<bind> (\<lambda>s3.
    visit_opt v s3)))"
| "visit (Return v) s = visit_opt v s"
| "visit (Yield v) s = visit_opt v s"
| "visit (YieldFrom v) s = visit v s"
| "visit (Module body) s = visit_list body s"
| "visit (Other children) s = visit_list children s"
| "visit_list [] s = Some s"
| "visit_list (n # ns) s = visit n s \<bind> (\<lambda>s1. visit_list ns s1)"
| "visit_opt None s = Some s"
| "visit_opt (Some n) s = visit n s"
| "visit_items [] s = Some s"
| "visit_items ((ctx, vars) # items) s =
    visit ctx s \<bind> (\<lambda>s1.
    visit_opt vars s1 \<bind> (\<lambda>s2.
    visit_items items s2))"
  by pat_completeness auto
termination
  by (relation "measure (\<lambda>x. case x of
        Inl (Inl (n, s)) \<Rightarrow> size n
      | Inl (Inr (ns, s)) \<Rightarrow> size_list size ns
      | Inr (Inl (v, s)) \<Rightarrow> size_option size v
      | Inr (Inr (items, s)) \<Rightarrow> size_list (size_prod size (size_option size)) items)")
    auto

subsection \<open>The reporter\<close>

text \<open>\<^verbatim>\<open>str(n)\<close> of a line number.\<close>

definition digit_char :: "nat \<Rightarrow> char" where
  "digit_char d = ''0123456789'' ! d"

function str_nat :: "nat \<Rightarrow> string" where
  "str_nat n = (if n < 10 then [digit_char n] else str_nat (n div 10) @ [digit_char (n mod 10)])"
  by pat_completeness auto
termination
  by (relation "measure id") auto

declare str_nat.simps [simp del]

definition name_or_empty :: "ResourceRecord \<Rightarrow> string" where
  "name_or_empty r = py_or (name r) []"

definition sort_key_of :: "ResourceRecord \<Rightarrow> nat \<times> string \<times> string" where
  "sort_key_of r = (lineno r, kind r, name_or_empty r)"

definition format_issue :: "string \<Rightarrow> ResourceRecord \<Rightarrow> string" where
  "format_issue path r =
    path @ '':'' @ str_nat (lineno r) @ [CHR 0x09] @ kind r @ [CHR 0x09]
      @ format_message (kind r) (py_or (name r) (kind r))"

definition report :: "string \<Rightarrow> Analyzer \<Rightarrow> string list" where
  "report path s =
    map (format_issue path) (filter (\<lambda>r. \<not> released r) (sort_key sort_key_of (records s)))"

subsection \<open>The per-file driver\<close>

text \<open>
  \<^verbatim>\<open>analyze\<close> reads the file, parses it, runs the visitor from a fresh
  \<^verbatim>\<open>Analyzer\<close> and reports. The file system and the parser are outside the module:
  \<open>read_text\<close> and \<open>parse\<close> give the outcome of \<^verbatim>\<open>path.read_text(encoding="utf-8")\<close>
  and of \<^verbatim>\<open>ast.parse(text)\<close>, a value or the exception raised;
  \<open>relative_to\<close> is \<^verbatim>\<open>path.relative_to(root)\<close>, \<open>None\<close> being its
  \<^verbatim>\<open>ValueError\<close>. An exception carries its message. The classes are those the
  two calls raise: \<^verbatim>\<open>OSError\<close> (the file cannot be opened or read),
  \<^verbatim>\<open>UnicodeDecodeError\<close> (the bytes are not UTF-8; a subclass of
  \<^verbatim>\<open>ValueError\<close>, not of \<^verbatim>\<open>OSError\<close>), \<^verbatim>\<open>SyntaxError\<close>, and the
  \<^verbatim>\<open>IndexError\<close> of the visitor. The result is the exception that leaves
  \<^verbatim>\<open>analyze\<close>, or the lines written to \<^verbatim>\<open>sys.stderr\<close> and the findings returned.
\<close>

datatype py_exception =
    OSError string
  | UnicodeDecodeError string
  | SyntaxError string
  | IndexError

record Env =
  read_text :: "string \<Rightarrow> py_exception + string"
  parse :: "string \<Rightarrow> py_exception + node"
  relative_to :: "string \<Rightarrow> string \<Rightarrow> string option"

definition analyze :: "Env \<Rightarrow> string \<Rightarrow> string \<Rightarrow> py_exception + (string list \<times> string list)" where
  "analyze env path root =
    (case read_text env path of
       Inl (OSError e) \<Rightarrow> Inr ([''WARN: Could not read '' @ path @ '': '' @ e], [])
     | Inl e \<Rightarrow> Inl e
     | Inr text \<Rightarrow>
         (case parse env text of
            Inl (SyntaxError e) \<Rightarrow> Inr ([''WARN: Syntax error in '' @ path @ '': '' @ e], [])
          | Inl e \<Rightarrow> Inl e
          | Inr tree \<Rightarrow>
              (case visit tree new_Analyzer of
                 None \<Rightarrow> Inl IndexError
               | Some s \<Rightarrow>
                   (let display = (case relative_to env path root of
                                     None \<Rightarrow> path
                                   | Some d \<Rightarrow> d)
                    in Inr ([], report display s)))))"

text \<open>The loop of \<^verbatim>\<open>main\<close> over the collected files: an exception that leaves
  \<^verbatim>\<open>analyze\<close> leaves \<^verbatim>\<open>main\<close> before anything is printed.\<close>

fun main_loop ::
  "Env \<Rightarrow> string \<Rightarrow> string list \<Rightarrow> string list \<times> string list
     \<Rightarrow> py_exception + (string list \<times> string list)" where
  "main_loop env root [] acc = Inr acc"
| "main_loop env root (path # paths) (err, issues) =
    (case analyze env path root of
       Inl e \<Rightarrow> Inl e
     | Inr (warnings, found) \<Rightarrow> main_loop env root paths (err @ warnings, issues @ found))"

section \<open>Auxiliary notions for the properties\<close>

text \<open>
  \<open>marks K rs rs'\<close>: the store \<open>rs'\<close> is \<open>rs\<close> with the \<^verbatim>\<open>released\<close> flag set on
  some records whose kind is in \<open>K\<close>. \<open>release_step K s s'\<close>: from \<open>s\<close> to \<open>s'\<close>
  the scopes and the assigned calls are unchanged, safe calls were only added, and the
  store changed by \<open>marks K\<close>. \<open>same_outer s s'\<close>: the stack of \<open>s'\<close> is not
  empty and all scopes but the current one are those of \<open>s\<close>.
\<close>

definition marks :: "string set \<Rightarrow> ResourceRecord list \<Rightarrow> ResourceRecord list \<Rightarrow> bool" where
  "marks K rs rs' \<longleftrightarrow>
     length rs' = length rs \<and>
     (\<forall>i<length rs. rs' ! i = rs ! i \<or>
        (kind (rs ! i) \<in> K \<and> rs' ! i = (rs ! i)\<lparr>released := True\<rparr>))"

definition release_step :: "string set \<Rightarrow> Analyzer \<Rightarrow> Analyzer \<Rightarrow> bool" where
  "release_step K s s' \<longleftrightarrow>
     scope_stack s' = scope_stack s \<and> assigned_calls s' = assigned_calls s \<and>
     safe_calls s \<subseteq> safe_calls s' \<and> marks K (records s) (records s')"

definition same_outer :: "Analyzer \<Rightarrow> Analyzer \<Rightarrow> bool" where
  "same_outer s s' \<longleftrightarrow>
     scope_stack s' \<noteq> [] \<and> butlast (scope_stack s') = butlast (scope_stack s)"

text \<open>
  \<open>quiet st n\<close>: under the scopes \<open>st\<close>, the subtree \<open>n\<close> holds no call that is an
  acquisition or a task-consuming combinator, no call of a method with a release-method
  name, and none of the statements and expressions the visitor treats specially
  (imports, function definitions, \<^verbatim>\<open>with\<close>, assignments, \<^verbatim>\<open>await\<close>). It stands for
  the code around an acquisition that the analyzer has nothing to say about.
\<close>

fun quiet :: "Scope list \<Rightarrow> node \<Rightarrow> bool" where
  "quiet st (Name i) = True"
| "quiet st (Attribute v a) = quiet st v"
| "quiet st (Call i l f a k) =
    ((case call_signature st (Call i l f a k) of
        None \<Rightarrow> True
      | Some sig \<Rightarrow> TARGET_SIGS sig = None \<and> sig \<notin> TASK_RELEASE_SIGS) \<and>
     (case f of Attribute v attr \<Rightarrow> method_kind attr = None | _ \<Rightarrow> True) \<and>
     quiet st f \<and> list_all (quiet st) a \<and> list_all (quiet st) k)"
| "quiet st (Starred v) = quiet st v"
| "quiet st (Tuple elts) = list_all (quiet st) elts"
| "quiet st (List elts) = list_all (quiet st) elts"
| "quiet st (Set elts) = list_all (quiet st) elts"
| "quiet st (Return v) = (case v of None \<Rightarrow> True | Some e \<Rightarrow> quiet st e)"
| "quiet st (Yield v) = (case v of None \<Rightarrow> True | Some e \<Rightarrow> quiet st e)"
| "quiet st (YieldFrom v) = quiet st v"
| "quiet st (Module body) = list_all (quiet st) body"
| "quiet st (Other children) = list_all (quiet st) children"
| "quiet st _ = False"

text \<open>
  \<open>nested_def bs stmt\<close>: the statement \<open>stmt\<close> inside \<open>length bs\<close> nested function
  definitions, the one of \<open>b\<close> an \<^verbatim>\<open>async def\<close> when \<open>b\<close> is true.
\<close>

fun nested_def :: "bool list \<Rightarrow> node \<Rightarrow> node" where
  "nested_def [] stmt = stmt"
| "nested_def (b # bs) stmt =
    (if b then AsyncFunctionDef [nested_def bs stmt] else FunctionDef [nested_def bs stmt])"

text \<open>
  \<open>task_leaves e\<close>: the names and calls found in an argument \<open>e\<close> by descending
  through starred expressions and tuple, list and set displays.
  \<open>bound_record scs x kd rs\<close>: the record that the name \<open>x\<close> denotes for the kind
  \<open>kd\<close>, the scopes \<open>scs\<close> given from the innermost outward: the most recent record
  of that kind under \<open>x\<close> in the innermost scope that has one.
  \<open>task_done leaf s s'\<close>: in \<open>s'\<close> the task record that a name leaf denotes in \<open>s\<close>
  is released, and a leaf that is a task-creation call is in \<^verbatim>\<open>safe_calls\<close>.
  \<open>later s s'\<close>: \<open>s'\<close> has the safe calls of \<open>s\<close> and the records of \<open>s\<close>, some
  of them marked released, followed by new ones.
\<close>

fun task_leaves :: "node \<Rightarrow> node list" where
  "task_leaves (Name i) = [Name i]"
| "task_leaves (Call i l f a k) = [Call i l f a k]"
| "task_leaves (Starred v) = task_leaves v"
| "task_leaves (Tuple elts) = concat (map task_leaves elts)"
| "task_leaves (List elts) = concat (map task_leaves elts)"
| "task_leaves (Set elts) = concat (map task_leaves elts)"
| "task_leaves _ = []"

fun latest_of_kind :: "nat list \<Rightarrow> string \<Rightarrow> ResourceRecord list \<Rightarrow> nat option" where
  "latest_of_kind [] kd rs = None"
| "latest_of_kind (e # es) kd rs = (if kind (rs ! e) = kd then Some e else latest_of_kind es kd rs)"

fun bound_record :: "Scope list \<Rightarrow> string \<Rightarrow> string \<Rightarrow> ResourceRecord list \<Rightarrow> nat option" where
  "bound_record [] x kd rs = None"
| "bound_record (sc # scs) x kd rs =
    (case by_name sc x of
       None \<Rightarrow> bound_record scs x kd rs
     | Some entries \<Rightarrow>
         (case latest_of_kind (rev entries) kd rs of
            Some e \<Rightarrow> Some e
          | None \<Rightarrow> bound_record scs x kd rs))"

definition task_done :: "node \<Rightarrow> Analyzer \<Rightarrow> Analyzer \<Rightarrow> bool" where
  "task_done leaf s s' \<longleftrightarrow>
     (\<forall>x j. leaf = Name x \<and> x \<noteq> [] \<and> j < length (records s) \<and>
        bound_record (rev (scope_stack s)) x ''asyncio_task'' (records s) = Some j
        \<longrightarrow> released (records s' ! j)) \<and>
     (\<forall>i l f a k sig. leaf = Call i l f a k \<and>
        call_signature (scope_stack s) leaf = Some sig \<and> TARGET_SIGS sig = Some ''asyncio_task''
        \<longrightarrow> i \<in> safe_calls s')"

definition later :: "Analyzer \<Rightarrow> Analyzer \<Rightarrow> bool" where
  "later s s' \<longleftrightarrow>
     safe_calls s \<subseteq> safe_calls s' \<and>
     (\<exists>xs ys. records s' = xs @ ys \<and> marks UNIV (records s) xs)"

text \<open>
  \<open>context_calls e\<close>: the calls that the marking of a context expression \<open>e\<close> reaches:
  \<open>e\<close> itself when it is a call, then the calls reached in its positional and keyword
  arguments, and, for an attribute access, those reached in its receiver.
\<close>

fun context_calls :: "node \<Rightarrow> node list" where
  "context_calls (Call i l f a k) =
     Call i l f a k # concat (map context_calls a) @ concat (map context_calls k)"
| "context_calls (Attribute v a) = context_calls v"
| "context_calls _ = []"





section \<open>Properties\<close>

subsection \<open>Release marking\<close>

lemma method_kind_simps:
  "method_kind ''close'' = Some ''file_handle''"
  "method_kind ''shutdown'' = Some ''socket_handle''"
  "method_kind ''wait'' = Some ''popen_handle''"
  "method_kind ''communicate'' = Some ''popen_handle''"
  "method_kind ''terminate'' = Some ''popen_handle''"
  "method_kind ''kill'' = Some ''popen_handle''"
  "method_kind ''cancel'' = Some ''asyncio_task''"
  by (simp_all add: method_kind_def RELEASE_METHODS_def)

lemma method_kind_cases:
  "method_kind m = Some kd \<Longrightarrow>
     (kd = ''file_handle'' \<and> m = ''close'') \<or>
     (kd = ''socket_handle'' \<and> m = ''shutdown'') \<or>
     (kd = ''popen_handle'' \<and> m \<in> {''wait'', ''communicate'', ''terminate'', ''kill''}) \<or>
     (kd = ''asyncio_task'' \<and> m = ''cancel'')"
  by (auto simp add: method_kind_def RELEASE_METHODS_def split: if_splits)

lemma mark_entries_Some:
  "mark_entries es k rs = Some rs' \<Longrightarrow>
     \<exists>e \<in> set es. rs' = rs[e := (rs ! e)\<lparr>released := True\<rparr>] \<and> \<not> released (rs ! e)
        \<and> (k = None \<or> Some (kind (rs ! e)) = k)"
  by (induction es) (auto split: if_splits)

lemma mark_scopes_cases:
  "mark_scopes scs n k rs = rs \<or>
   (\<exists>e. mark_scopes scs n k rs = rs[e := (rs ! e)\<lparr>released := True\<rparr>] \<and> \<not> released (rs ! e)
        \<and> (k = None \<or> Some (kind (rs ! e)) = k))"
proof (induction scs)
  case Nil
  then show ?case by simp
next
  case (Cons sc scs)
  show ?case
  proof (cases "by_name sc n")
    case None
    with Cons show ?thesis by simp
  next
    case (Some entries)
    show ?thesis
    proof (cases "mark_entries (rev entries) k rs")
      case None
      with Some Cons show ?thesis by simp
    next
      case (Some rs')
      from mark_entries_Some[OF this] obtain e where
        "rs' = rs[e := (rs ! e)\<lparr>released := True\<rparr>]" "\<not> released (rs ! e)"
        "k = None \<or> Some (kind (rs ! e)) = k" by blast
      with Some \<open>by_name sc n = Some entries\<close> Cons show ?thesis
        by (cases "entries = []") auto
    qed
  qed
qed

lemma marks_refl: "marks K rs rs"
  by (simp add: marks_def)

lemma marks_trans: "marks K rs rs' \<Longrightarrow> marks K rs' rs'' \<Longrightarrow> marks K rs rs''"
  unfolding marks_def
  apply (intro conjI allI impI)
   apply simp
  subgoal for i
    apply (elim conjE)
    apply (drule spec[of _ i])
    apply (drule spec[of _ i])
    apply auto
    done
  done

lemma marks_mono: "marks K rs rs' \<Longrightarrow> K \<subseteq> K' \<Longrightarrow> marks K' rs rs'"
  by (auto simp: marks_def)

lemma marks_update:
  "kind (rs ! e) \<in> K \<Longrightarrow> marks K rs (rs[e := (rs ! e)\<lparr>released := True\<rparr>])"
proof -
  have "rs[e := (rs ! e)\<lparr>released := True\<rparr>] ! i = rs ! i \<or>
        (kind (rs ! i) \<in> K \<and> rs[e := (rs ! e)\<lparr>released := True\<rparr>] ! i = (rs ! i)\<lparr>released := True\<rparr>)"
    if "kind (rs ! e) \<in> K" "i < length rs" for i
    using that by (cases "i = e") simp_all
  then show "kind (rs ! e) \<in> K \<Longrightarrow> ?thesis"
    by (simp add: marks_def)
qed

lemma mark_scopes_marks:
  "marks (case k of None \<Rightarrow> UNIV | Some kd \<Rightarrow> {kd}) rs (mark_scopes scs n k rs)"
  using mark_scopes_cases[of scs n k rs]
  by (auto simp: marks_refl intro!: marks_update split: option.splits)

lemma release_step_refl: "release_step K s s"
  by (simp add: release_step_def marks_refl)

lemma release_step_trans:
  "release_step K s s' \<Longrightarrow> release_step K s' s'' \<Longrightarrow> release_step K s s''"
  by (auto simp: release_step_def intro: marks_trans)

lemma release_step_mono: "release_step K s s' \<Longrightarrow> K \<subseteq> K' \<Longrightarrow> release_step K' s s'"
  by (auto simp: release_step_def intro: marks_mono)

lemma mark_released_step: "release_step {kd} s (mark_released nm (Some kd) s)"
  using mark_scopes_marks[of "Some kd"]
  by (auto simp: mark_released_def release_step_def marks_refl split: option.splits)

lemma fold_release_step:
  assumes "\<And>x s. x \<in> set xs \<Longrightarrow> release_step K s (f x s)"
  shows "release_step K s (fold f xs s)"
  using assms
proof (induction xs arbitrary: s)
  case Nil
  then show ?case by (simp add: release_step_refl)
next
  case (Cons x xs)
  have "release_step K s (f x s)" using Cons.prems by simp
  moreover have "release_step K (f x s) (fold f xs (f x s))"
    using Cons.IH Cons.prems by simp
  ultimately show ?case by (auto intro: release_step_trans)
qed

lemma safe_insert_step: "release_step K s (s\<lparr>safe_calls := insert i (safe_calls s)\<rparr>)"
  by (auto simp: release_step_def marks_refl)

lemma mark_task_step: "release_step {''asyncio_task''} s (mark_task_released_from_expr e s)"
proof (induction e s rule: mark_task_released_from_expr.induct)
  case (1 i s)
  then show ?case by (simp add: mark_released_step)
next
  case (2 i l f a k s)
  then show ?case by (auto simp: safe_insert_step release_step_refl split: option.splits)
next
  case (4 elts s)
  then show ?case by (simp add: fold_release_step)
next
  case (5 elts s)
  then show ?case by (simp add: fold_release_step)
next
  case (6 elts s)
  then show ?case by (simp add: fold_release_step)
qed (simp_all add: release_step_refl)

lemma mark_chained_step: "release_step K s (mark_chained v attr s)"
  by (auto simp: mark_chained_def safe_insert_step release_step_refl split: node.splits option.splits)

lemma call_signature_attr:
  "call_signature st (Call i l (Attribute v attr) a k) = Some sig \<Longrightarrow> snd sig = attr"
  by (cases v) (auto split: option.splits prod.splits if_splits simp: Let_def)

lemma marks_nth:
  "marks K rs rs' \<Longrightarrow> i < length rs \<Longrightarrow> kind (rs ! i) \<notin> K \<Longrightarrow> rs' ! i = rs ! i"
  by (auto simp: marks_def)

lemma release_by_method_Attribute:
  "release_by_method (Attribute v attr) s =
     (case method_kind attr of
        None \<Rightarrow> mark_chained v attr s
      | Some kd \<Rightarrow> mark_released (dotted_name v) (Some kd) (mark_chained v attr s))"
  by (simp add: release_by_method_def Let_def)

lemma release_by_method_other:
  "\<forall>v attr. func \<noteq> Attribute v attr \<Longrightarrow> release_by_method func s = s"
  by (cases func) (simp_all add: release_by_method_def)

lemma release_by_method_step:
  "release_step (case func of
       Attribute v attr \<Rightarrow> (case method_kind attr of None \<Rightarrow> {} | Some kd \<Rightarrow> {kd})
     | _ \<Rightarrow> {}) s (release_by_method func s)"
  by (cases func)
    (auto simp: release_by_method_def Let_def release_step_refl split: option.splits
      intro: mark_chained_step release_step_trans[OF mark_chained_step mark_released_step])

lemma release_task_args_step: "release_step {''asyncio_task''} s (release_task_args c s)"
proof -
  have "release_step {''asyncio_task''} s (fold mark_task_released_from_expr k
                        (fold mark_task_released_from_expr a s))" for a k
    by (intro release_step_trans[OF fold_release_step fold_release_step] mark_task_step)
  then show ?thesis
    by (cases c) (auto simp: release_task_args_def release_step_refl split: option.splits)
qed

lemma handle_release_Call:
  "handle_release (Call i l func a k) s =
     release_task_args (Call i l func a k) (release_by_method func s)"
  by (simp add: handle_release_def)

lemma handle_release_attr_step:
  "release_step ((case method_kind attr of None \<Rightarrow> {} | Some kd \<Rightarrow> {kd}) \<union> {''asyncio_task''}) s
     (handle_release (Call i l (Attribute v attr) a k) s)"
proof -
  let ?K = "(case method_kind attr of None \<Rightarrow> {} | Some kd \<Rightarrow> {kd}) \<union> {''asyncio_task''}"
  have 1: "release_step ?K s (release_by_method (Attribute v attr) s)"
    using release_by_method_step[of "Attribute v attr" s]
    by (rule release_step_mono) auto
  have 2: "release_step ?K (release_by_method (Attribute v attr) s)
     (release_task_args (Call i l (Attribute v attr) a k) (release_by_method (Attribute v attr) s))"
    by (rule release_step_mono[OF release_task_args_step]) simp
  show ?thesis
    unfolding handle_release_Call by (rule release_step_trans[OF 1 2])
qed

lemma handle_release_other_step:
  "\<forall>v attr. func \<noteq> Attribute v attr \<Longrightarrow>
     release_step {''asyncio_task''} s (handle_release (Call i l func a k) s)"
  by (simp add: handle_release_Call release_by_method_other release_task_args_step)

lemma handle_release_step: "release_step UNIV s (handle_release c s)"
proof (cases c)
  case (Call i l func a k)
  show ?thesis
  proof (cases "\<exists>v attr. func = Attribute v attr")
    case True
    then show ?thesis
      using Call handle_release_attr_step release_step_mono by blast
  next
    case False
    then show ?thesis
      using Call handle_release_other_step[of func s i l a k] release_step_mono by blast
  qed
qed (simp_all add: handle_release_def release_step_refl)

lemma close_not_task_sig:
  "call_signature st (Call i l (Attribute v ''close'') a k) = Some sig \<Longrightarrow> sig \<notin> TASK_RELEASE_SIGS"
  by (drule call_signature_attr) (auto simp: TASK_RELEASE_SIGS_def)


subsection \<open>The scope stack\<close>

lemma same_outer_refl: "scope_stack s \<noteq> [] \<Longrightarrow> same_outer s s"
  by (simp add: same_outer_def)

lemma same_outer_trans: "same_outer s s' \<Longrightarrow> same_outer s' s'' \<Longrightarrow> same_outer s s''"
  by (simp add: same_outer_def)

lemma same_outer_length:
  assumes "same_outer s s'" "scope_stack s \<noteq> []"
  shows "length (scope_stack s') = length (scope_stack s)"
proof -
  from assms have "length (butlast (scope_stack s')) = length (butlast (scope_stack s))"
    by (simp add: same_outer_def)
  then have "length (scope_stack s') - 1 = length (scope_stack s) - 1"
    by (simp only: length_butlast)
  moreover from assms have "length (scope_stack s') \<noteq> 0" "length (scope_stack s) \<noteq> 0"
    by (simp_all add: same_outer_def)
  ultimately show ?thesis by arith
qed

lemma same_outer_stack_eq:
  "scope_stack s' = scope_stack s \<Longrightarrow> scope_stack s \<noteq> [] \<Longrightarrow> same_outer s s'"
  by (simp add: same_outer_def)

lemma update_current_ok:
  "scope_stack s \<noteq> [] \<Longrightarrow> \<exists>s'. update_current f s = Some s' \<and> same_outer s s'"
  by (simp add: update_current_def same_outer_def)

lemma add_record_ok:
  "scope_stack s \<noteq> [] \<Longrightarrow> \<exists>s'. add_record nm k ln s = Some s' \<and> same_outer s s'"
  by (auto simp: add_record_def Let_def update_current_def same_outer_def split: option.splits)

lemma add_records_ok:
  "scope_stack s \<noteq> [] \<Longrightarrow> \<exists>s'. add_records ns k ln s = Some s' \<and> same_outer s s'"
proof (induction ns arbitrary: s)
  case Nil
  then show ?case by (simp add: same_outer_refl)
next
  case (Cons n ns)
  from add_record_ok[OF Cons.prems, of "Some n" k ln] obtain s1 where
    1: "add_record (Some n) k ln s = Some s1" "same_outer s s1" by blast
  then have "scope_stack s1 \<noteq> []" by (simp add: same_outer_def)
  from Cons.IH[OF this] obtain s2 where "add_records ns k ln s1 = Some s2" "same_outer s1 s2"
    by blast
  with 1 show ?case by (auto intro: same_outer_trans)
qed

lemma record_call_ok:
  "scope_stack s \<noteq> [] \<Longrightarrow> \<exists>s'. record_call c s = Some s' \<and> same_outer s s'"
  using add_record_ok[of s]
  by (cases c) (auto simp: record_call_def same_outer_refl split: option.splits)

lemma handle_assignment_ok:
  "scope_stack s \<noteq> [] \<Longrightarrow> \<exists>s'. handle_assignment ts v s = Some s' \<and> same_outer s s'"
proof (cases v)
  case (Call i l f a k)
  assume ne: "scope_stack s \<noteq> []"
  let ?s1 = "s\<lparr>assigned_calls := insert i (assigned_calls s)\<rparr>"
  have s1: "scope_stack ?s1 \<noteq> []" "\<And>s'. same_outer ?s1 s' \<Longrightarrow> same_outer s s'"
    using ne by (simp_all add: same_outer_def)
  show ?thesis
    using add_record_ok[OF s1(1)] add_records_ok[OF s1(1)] s1(2) ne
    by (auto simp: handle_assignment_def Call Let_def same_outer_refl split: option.splits)
      blast+
qed (simp_all add: handle_assignment_def same_outer_refl)

lemma visit_Import_ok:
  "scope_stack s \<noteq> [] \<Longrightarrow> \<exists>s'. visit_Import names s = Some s' \<and> same_outer s s'"
proof (induction names arbitrary: s)
  case Nil
  then show ?case by (simp add: same_outer_refl)
next
  case (Cons a names)
  obtain nm asname where a: "a = (nm, asname)" by (cases a)
  from update_current_ok[OF Cons.prems] obtain s1 where
    1: "update_current (\<lambda>sc. sc\<lparr>aliases := (aliases sc)(py_or asname nm \<mapsto> (Some nm, None))\<rparr>) s = Some s1"
       "same_outer s s1" by blast
  then have "scope_stack s1 \<noteq> []" by (simp add: same_outer_def)
  from Cons.IH[OF this] 1 a show ?case by (auto intro: same_outer_trans)
qed

lemma visit_ImportFrom_ok:
  "scope_stack s \<noteq> [] \<Longrightarrow> \<exists>s'. visit_ImportFrom m names s = Some s' \<and> same_outer s s'"
proof (induction names arbitrary: s)
  case Nil
  then show ?case by (simp add: same_outer_refl)
next
  case (Cons a names)
  obtain nm asname where a: "a = (nm, asname)" by (cases a)
  from update_current_ok[OF Cons.prems] obtain s1 where
    1: "update_current (\<lambda>sc. sc\<lparr>aliases := (aliases sc)(py_or asname nm \<mapsto> (Some (py_or m []), Some nm))\<rparr>) s = Some s1"
       "same_outer s s1" by blast
  then have "scope_stack s1 \<noteq> []" by (simp add: same_outer_def)
  from Cons.IH[OF this] Cons.IH[OF Cons.prems] 1 a show ?case by (auto intro: same_outer_trans)
qed

lemma handle_release_stack [simp]: "scope_stack (handle_release c s) = scope_stack s"
  using handle_release_step[of s c] by (simp add: release_step_def)

lemma mark_safe_calls_step: "release_step {} s (mark_safe_calls e s)"
proof (induction e s rule: mark_safe_calls.induct)
  case (1 i l f a k s)
  let ?s1 = "(case call_signature (scope_stack s) (Call i l f a k) of
                 None \<Rightarrow> s
               | Some sig \<Rightarrow>
                   if TARGET_SIGS sig \<noteq> None then s\<lparr>safe_calls := insert i (safe_calls s)\<rparr>
                   else s)"
  have a: "release_step {} s ?s1"
    by (auto simp: safe_insert_step release_step_refl split: option.splits)
  have b: "release_step {} ?s1 (fold mark_safe_calls a ?s1)"
    by (rule fold_release_step) (use 1 in auto)
  have c: "release_step {} (fold mark_safe_calls a ?s1) (fold mark_safe_calls k (fold mark_safe_calls a ?s1))"
    by (rule fold_release_step) (use 1 in auto)
  show ?case
    using release_step_trans[OF a release_step_trans[OF b c]] by (simp add: Let_def)
qed (simp_all add: release_step_refl)

lemma mark_context_safe_step: "release_step {} s (mark_context_safe items s)"
  unfolding mark_context_safe_def by (rule fold_release_step) (rule mark_safe_calls_step)

lemma mark_context_safe_stack [simp]: "scope_stack (mark_context_safe items s) = scope_stack s"
  using mark_context_safe_step[of s items] by (simp add: release_step_def)

lemma await_release_step: "release_step {''asyncio_task''} s (await_release v s)"
  by (cases v)
    (auto simp: await_release_def mark_released_step safe_insert_step release_step_refl
      split: option.splits)

lemma await_release_stack [simp]: "scope_stack (await_release v s) = scope_stack s"
  using await_release_step[of s v] by (simp add: release_step_def)

lemma pop_push_ok:
  assumes "same_outer (push_scope s) s'"
  shows "\<exists>s''. pop_scope s' = Some s'' \<and> scope_stack s'' = scope_stack s"
  using assms by (simp add: same_outer_def push_scope_def pop_scope_def)

lemma push_scope_nonempty [simp]: "scope_stack (push_scope s) \<noteq> []"
  by (simp add: push_scope_def)

lemma visit_ok_all:
  "(scope_stack s \<noteq> [] \<longrightarrow> (\<exists>s'. visit n s = Some s' \<and> same_outer s s'))"
  "(scope_stack s \<noteq> [] \<longrightarrow> (\<exists>s'. visit_list ns s = Some s' \<and> same_outer s s'))"
  "(scope_stack s \<noteq> [] \<longrightarrow> (\<exists>s'. visit_opt v s = Some s' \<and> same_outer s s'))"
  "(scope_stack s \<noteq> [] \<longrightarrow> (\<exists>s'. visit_items items s = Some s' \<and> same_outer s s'))"
proof (induction n s and ns s and v s and items s rule: visit_visit_list_visit_opt_visit_items.induct)
  case (3 i l f a k s)
  show ?case
  proof
    assume ne: "scope_stack s \<noteq> []"
    from record_call_ok[OF ne] obtain s1 where
      r1: "record_call (Call i l f a k) s = Some s1" "same_outer s s1" by blast
    then have ne1: "scope_stack (handle_release (Call i l f a k) s1) \<noteq> []"
      by (simp add: same_outer_def)
    from 3(1)[OF r1(1)] ne1 obtain s2 where
      r2: "visit f (handle_release (Call i l f a k) s1) = Some s2"
         "same_outer (handle_release (Call i l f a k) s1) s2" by blast
    then have ne2: "scope_stack s2 \<noteq> []" by (simp add: same_outer_def)
    from 3(2)[OF r1(1) r2(1)] ne2 obtain s3 where
      r3: "visit_list a s2 = Some s3" "same_outer s2 s3" by blast
    then have ne3: "scope_stack s3 \<noteq> []" by (simp add: same_outer_def)
    from 3(3)[OF r1(1) r2(1) r3(1)] ne3 obtain s4 where
      r4: "visit_list k s3 = Some s4" "same_outer s3 s4" by blast
    from r1 r2 r3 r4 show "\<exists>s'. visit (Call i l f a k) s = Some s' \<and> same_outer s s'"
      by (auto simp: same_outer_def)
  qed
next
  case (4 v s)
  then show ?case by (simp add: same_outer_def)
next
  case (9 children s)
  show ?case
  proof
    assume ne: "scope_stack s \<noteq> []"
    from 9 obtain s1 where 1: "visit_list children (push_scope s) = Some s1"
      "same_outer (push_scope s) s1" by auto
    from pop_push_ok[OF 1(2)] 1(1) ne
    show "\<exists>s'. visit (FunctionDef children) s = Some s' \<and> same_outer s s'"
      by (auto simp: same_outer_def)
  qed
next
  case (10 children s)
  show ?case
  proof
    assume ne: "scope_stack s \<noteq> []"
    from 10 obtain s1 where 1: "visit_list children (push_scope s) = Some s1"
      "same_outer (push_scope s) s1" by auto
    from pop_push_ok[OF 1(2)] 1(1) ne
    show "\<exists>s'. visit (AsyncFunctionDef children) s = Some s' \<and> same_outer s s'"
      by (auto simp: same_outer_def)
  qed
next
  case (11 names s)
  then show ?case by (simp add: visit_Import_ok)
next
  case (12 m names s)
  then show ?case by (simp add: visit_ImportFrom_ok)
next
  case (13 items body s)
  show ?case
  proof
    assume ne: "scope_stack s \<noteq> []"
    with 13(1) obtain s1 where 1: "visit_items items (mark_context_safe items s) = Some s1"
      "same_outer (mark_context_safe items s) s1" by auto
    then have "scope_stack s1 \<noteq> []" by (simp add: same_outer_def)
    with 13(2)[OF 1(1)] obtain s2 where "visit_list body s1 = Some s2" "same_outer s1 s2" by blast
    with 1 show "\<exists>s'. visit (With items body) s = Some s' \<and> same_outer s s'"
      by (auto simp: same_outer_def)
  qed
next
  case (14 items body s)
  show ?case
  proof
    assume ne: "scope_stack s \<noteq> []"
    with 14(1) obtain s1 where 1: "visit_items items (mark_context_safe items s) = Some s1"
      "same_outer (mark_context_safe items s) s1" by auto
    then have "scope_stack s1 \<noteq> []" by (simp add: same_outer_def)
    with 14(2)[OF 1(1)] obtain s2 where "visit_list body s1 = Some s2" "same_outer s1 s2" by blast
    with 1 show "\<exists>s'. visit (AsyncWith items body) s = Some s' \<and> same_outer s s'"
      by (auto simp: same_outer_def)
  qed
next
  case (15 targets v s)
  show ?case
  proof
    assume ne: "scope_stack s \<noteq> []"
    from handle_assignment_ok[OF ne] obtain s1 where
      1: "handle_assignment targets v s = Some s1" "same_outer s s1" by blast
    then have "scope_stack s1 \<noteq> []" by (simp add: same_outer_def)
    with 15(1)[OF 1(1)] obtain s2 where 2: "visit_list targets s1 = Some s2" "same_outer s1 s2"
      by blast
    then have "scope_stack s2 \<noteq> []" by (simp add: same_outer_def)
    with 15(2)[OF 1(1) 2(1)] obtain s3 where "visit v s2 = Some s3" "same_outer s2 s3" by blast
    with 1 2 show "\<exists>s'. visit (Assign targets v) s = Some s' \<and> same_outer s s'"
      by (auto simp: same_outer_def)
  qed
next
  case (16 target annotation v s)
  show ?case
  proof
    assume ne: "scope_stack s \<noteq> []"
    let ?h = "(case v of None \<Rightarrow> Some s | Some e \<Rightarrow> handle_assignment [target] e s)"
    from handle_assignment_ok[OF ne] ne obtain s1 where
      1: "?h = Some s1" "same_outer s s1"
      by (cases v) (auto simp: same_outer_refl)
    then have "scope_stack s1 \<noteq> []" by (simp add: same_outer_def)
    with 16(1)[OF 1(1)] obtain s2 where 2: "visit target s1 = Some s2" "same_outer s1 s2"
      by blast
    then have "scope_stack s2 \<noteq> []" by (simp add: same_outer_def)
    with 16(2)[OF 1(1) 2(1)] obtain s3 where 3: "visit annotation s2 = Some s3" "same_outer s2 s3"
      by blast
    then have "scope_stack s3 \<noteq> []" by (simp add: same_outer_def)
    with 16(3)[OF 1(1) 2(1) 3(1)] obtain s4 where "visit_opt v s3 = Some s4" "same_outer s3 s4"
      by blast
    with 1 2 3 show "\<exists>s'. visit (AnnAssign target annotation v) s = Some s' \<and> same_outer s s'"
      by (auto simp: same_outer_def)
  qed
next
  case (23 n ns s)
  show ?case
  proof
    assume ne: "scope_stack s \<noteq> []"
    with 23(1) obtain s1 where 1: "visit n s = Some s1" "same_outer s s1" by blast
    then have "scope_stack s1 \<noteq> []" by (simp add: same_outer_def)
    with 23(2)[OF 1(1)] obtain s2 where "visit_list ns s1 = Some s2" "same_outer s1 s2" by blast
    with 1 show "\<exists>s'. visit_list (n # ns) s = Some s' \<and> same_outer s s'"
      by (auto simp: same_outer_def)
  qed
next
  case (27 ctx vars items s)
  show ?case
  proof
    assume ne: "scope_stack s \<noteq> []"
    with 27(1) obtain s1 where 1: "visit ctx s = Some s1" "same_outer s s1" by blast
    then have "scope_stack s1 \<noteq> []" by (simp add: same_outer_def)
    with 27(2)[OF 1(1)] obtain s2 where 2: "visit_opt vars s1 = Some s2" "same_outer s1 s2" by blast
    then have "scope_stack s2 \<noteq> []" by (simp add: same_outer_def)
    with 27(3)[OF 1(1) 2(1)] obtain s3 where "visit_items items s2 = Some s3" "same_outer s2 s3" by blast
    with 1 2 show "\<exists>s'. visit_items ((ctx, vars) # items) s = Some s' \<and> same_outer s s'"
      by (auto simp: same_outer_def)
  qed
qed (simp_all add: same_outer_refl)

subsection \<open>The registry, quiet code and chained releases\<close>

lemma TARGET_SIGS_cases:
  "TARGET_SIGS sig = Some kd \<Longrightarrow>
     (sig, kd) \<in> {((None, ''open''), ''file_handle''),
     ((Some ''builtins'', ''open''), ''file_handle''),
     ((Some ''io'', ''open''), ''file_handle''),
     ((Some ''pathlib'', ''open''), ''file_handle''),
     ((Some ''pathlib.Path'', ''open''), ''file_handle''),
     ((Some ''tempfile'', ''NamedTemporaryFile''), ''file_handle''),
     ((Some ''tempfile'', ''TemporaryFile''), ''file_handle''),
     ((Some ''tempfile'', ''SpooledTemporaryFile''), ''file_handle''),
     ((Some ''socket'', ''socket''), ''socket_handle''),
     ((Some ''socket'', ''create_connection''), ''socket_handle''),
     ((Some ''socket'', ''socketpair''), ''socket_handle''),
     ((Some ''subprocess'', ''Popen''), ''popen_handle''),
     ((Some ''asyncio'', ''create_task''), ''asyncio_task'')}"
  unfolding TARGET_SIGS_def by (auto split: if_splits)

lemma TARGET_SIGS_symbol:
  "TARGET_SIGS sig = Some kd \<Longrightarrow>
     snd sig \<in> {''open'', ''NamedTemporaryFile'', ''TemporaryFile'', ''SpooledTemporaryFile'',
       ''socket'', ''create_connection'', ''socketpair'', ''Popen'', ''create_task''}"
  by (drule TARGET_SIGS_cases) auto

lemma TARGET_SIGS_kind:
  "TARGET_SIGS sig = Some kd \<Longrightarrow>
     kd \<in> {''file_handle'', ''socket_handle'', ''popen_handle'', ''asyncio_task''}"
  by (drule TARGET_SIGS_cases) auto

lemma TARGET_SIGS_kind_nonempty: "TARGET_SIGS sig = Some kd \<Longrightarrow> kd \<noteq> []"
  by (drule TARGET_SIGS_kind) auto

lemma TARGET_not_TASK: "TARGET_SIGS sig = Some kd \<Longrightarrow> sig \<notin> TASK_RELEASE_SIGS"
  by (drule TARGET_SIGS_cases) (auto simp: TASK_RELEASE_SIGS_def)

lemma release_methods_cases:
  "m \<in> set (release_methods kd) \<Longrightarrow>
     m \<in> {''close'', ''shutdown'', ''wait'', ''communicate'', ''terminate'', ''kill'', ''cancel''}"
  by (auto simp: release_methods_def RELEASE_METHODS_def split: if_splits)

lemma release_method_has_kind: "m \<in> set (release_methods kd) \<Longrightarrow> method_kind m \<noteq> None"
  by (drule release_methods_cases) (auto simp: method_kind_simps)

lemma method_kind_release_methods: "method_kind m = Some kd \<Longrightarrow> m \<in> set (release_methods kd)"
  by (drule method_kind_cases) (auto simp: release_methods_def RELEASE_METHODS_def)

lemma acquisition_symbol_no_method:
  "TARGET_SIGS sig = Some kd \<Longrightarrow> method_kind (snd sig) = None"
  by (drule TARGET_SIGS_cases) (auto simp: method_kind_def RELEASE_METHODS_def)

lemma release_method_no_acquisition:
  "method_kind m \<noteq> None \<Longrightarrow> TARGET_SIGS (x, m) = None"
proof (rule ccontr)
  assume a: "method_kind m \<noteq> None" "TARGET_SIGS (x, m) \<noteq> None"
  then obtain kd where "TARGET_SIGS (x, m) = Some kd" by auto
  from acquisition_symbol_no_method[OF this] a show False by simp
qed

lemma mark_chained_no_method: "method_kind attr = None \<Longrightarrow> mark_chained v attr s = s"
  using release_method_has_kind[of attr]
  by (auto simp: mark_chained_def split: node.splits option.splits)

lemma mark_released_None [simp]: "mark_released None k s = s"
  by (simp add: mark_released_def)

text \<open>An acquisition call is no release.\<close>

lemma handle_release_acquisition:
  assumes "call_signature (scope_stack s) (Call i l f a k) = Some sig" "TARGET_SIGS sig = Some kd"
  shows "handle_release (Call i l f a k) s = s"
proof -
  have nt: "sig \<notin> TASK_RELEASE_SIGS" using assms(2) by (rule TARGET_not_TASK)
  have "release_by_method f s = s"
  proof (cases "\<exists>v attr. f = Attribute v attr")
    case True
    then obtain v attr where f: "f = Attribute v attr" by blast
    from call_signature_attr[of "scope_stack s" i l v attr a k sig] assms(1) f
    have "snd sig = attr" by simp
    with acquisition_symbol_no_method[OF assms(2)] have "method_kind attr = None" by simp
    with f show ?thesis
      by (simp add: release_by_method_Attribute mark_chained_no_method)
  next
    case False
    then show ?thesis by (simp add: release_by_method_other)
  qed
  with assms(1) nt show ?thesis
    by (simp add: handle_release_Call release_task_args_def)
qed

lemma handle_release_quiet:
  assumes "quiet (scope_stack s) (Call i l f a k)"
  shows "handle_release (Call i l f a k) s = s"
proof -
  have 1: "release_by_method f s = s"
    using assms by (cases f) (simp_all add: release_by_method_def mark_chained_no_method)
  show ?thesis
    using assms unfolding handle_release_Call 1
    by (auto simp: release_task_args_def split: option.splits)
qed

lemma record_call_quiet:
  "quiet (scope_stack s) (Call i l f a k) \<Longrightarrow> record_call (Call i l f a k) s = Some s"
  by (auto simp: record_call_def split: option.splits)

lemma visit_quiet_all:
  "(quiet (scope_stack s) n \<longrightarrow> visit n s = Some s)"
  "(list_all (quiet (scope_stack s)) ns \<longrightarrow> visit_list ns s = Some s)"
  "((case v of None \<Rightarrow> True | Some e \<Rightarrow> quiet (scope_stack s) e) \<longrightarrow> visit_opt v s = Some s)"
  "(items = [] \<longrightarrow> visit_items items s = Some s)"
proof (induction n s and ns s and v s and items s rule: visit_visit_list_visit_opt_visit_items.induct)
  case (3 i l f a k s)
  show ?case
  proof
    assume q: "quiet (scope_stack s) (Call i l f a k)"
    have r: "record_call (Call i l f a k) s = Some s" using q by (rule record_call_quiet)
    have h: "handle_release (Call i l f a k) s = s" using q by (rule handle_release_quiet)
    from q have qf: "quiet (scope_stack s) f" and qa: "list_all (quiet (scope_stack s)) a"
      and qk: "list_all (quiet (scope_stack s)) k" by simp_all
    from 3(1)[OF r] qf h have vf: "visit f (handle_release (Call i l f a k) s) = Some s" by simp
    from 3(2)[OF r vf] qa have va: "visit_list a s = Some s" by simp
    from 3(3)[OF r vf va] qk have vk: "visit_list k s = Some s" by simp
    show "visit (Call i l f a k) s = Some s"
      using r h vf va vk by simp
  qed
qed (auto)

lemma chained_signature:
  assumes "call_signature st (Call i' l' f' a' k') = Some sig" "TARGET_SIGS sig = Some kd"
  shows "\<exists>mn. call_signature st (Call i l (Attribute (Call i' l' f' a' k') m) a k) = Some (Some mn, m)
            \<and> mn \<noteq> ''asyncio''"
  using TARGET_SIGS_cases[OF assms(2)] assms(1)
  by (auto simp: py_or_def)

lemma record_call_safe:
  "i \<in> safe_calls s \<Longrightarrow> record_call (Call i l f a k) s = Some s"
  by (auto simp: record_call_def split: option.splits)

lemma mark_chained_acquisition:
  assumes "call_signature (scope_stack s) (Call i' l' f' a' k') = Some sig"
    "TARGET_SIGS sig = Some kd" "m \<in> set (release_methods kd)"
  shows "mark_chained (Call i' l' f' a' k') m s = s\<lparr>safe_calls := insert i' (safe_calls s)\<rparr>"
  using assms TARGET_SIGS_kind_nonempty[OF assms(2)] by (simp add: mark_chained_def)

lemma chained_visit:
  assumes sig: "call_signature (scope_stack s) (Call i' l' f' a' k') = Some sig"
    and kd: "TARGET_SIGS sig = Some kd"
    and m: "m \<in> set (release_methods kd)"
  shows "visit (Call i l (Attribute (Call i' l' f' a' k') m) a k) s =
     visit f' (s\<lparr>safe_calls := insert i' (safe_calls s)\<rparr>) \<bind> (\<lambda>s1.
     visit_list a' s1 \<bind> (\<lambda>s2.
     visit_list k' s2 \<bind> (\<lambda>s3.
     visit_list a s3 \<bind> (\<lambda>s4.
     visit_list k s4))))"
proof -
  let ?inner = "Call i' l' f' a' k'"
  let ?outer = "Call i l (Attribute ?inner m) a k"
  let ?s1 = "s\<lparr>safe_calls := insert i' (safe_calls s)\<rparr>"
  from chained_signature[OF sig kd, of i l m a k] obtain mn where
    osig: "call_signature (scope_stack s) ?outer = Some (Some mn, m)" and mn: "mn \<noteq> ''asyncio''"
    by blast
  have mk: "method_kind m \<noteq> None" using m by (rule release_method_has_kind)
  have "TARGET_SIGS (Some mn, m) = None" using mk by (rule release_method_no_acquisition)
  with osig have rc: "record_call ?outer s = Some s"
    by (simp add: record_call_def)
  have nt: "(Some mn, m) \<notin> TASK_RELEASE_SIGS" using mn by (simp add: TASK_RELEASE_SIGS_def)
  have rm: "release_by_method (Attribute ?inner m) s = ?s1"
    using mk mark_chained_acquisition[OF sig kd m]
    by (auto simp: release_by_method_Attribute split: option.splits)
  have hr: "handle_release ?outer s = ?s1"
    using osig nt by (simp add: handle_release_Call rm release_task_args_def)
  have rci: "record_call ?inner ?s1 = Some ?s1"
    by (rule record_call_safe) simp
  have hri: "handle_release ?inner ?s1 = ?s1"
    by (rule handle_release_acquisition[OF _ kd]) (simp add: sig)
  show ?thesis
    by (simp add: rc hr rci hri)
qed

lemma report_safe_calls [simp]: "report path (s\<lparr>safe_calls := X\<rparr>) = report path s"
  by (simp add: report_def)


subsection \<open>The reporter\<close>

lemma mset_report:
  "mset (report path t) =
     image_mset (format_issue path) (filter_mset (\<lambda>r. \<not> released r) (mset (records t)))"
  by (simp add: report_def)

lemma add_record_records:
  "add_record nm k ln s = Some s' \<Longrightarrow>
     records s' = records s @ [\<lparr>name = nm, kind = k, lineno = ln, released = False\<rparr>]"
  by (auto simp: add_record_def Let_def update_current_def split: option.splits if_splits)

lemma report_member:
  assumes "j < length (records t)" "\<not> released (records t ! j)"
  shows "format_issue path (records t ! j) \<in> set (report path t)"
proof -
  from assms have "records t ! j \<in> set (filter (\<lambda>r. \<not> released r) (sort_key sort_key_of (records t)))"
    by simp
  then show ?thesis unfolding report_def set_map by (rule imageI)
qed

lemma str_nat_digit: "n < 10 \<Longrightarrow> str_nat n = [digit_char n]"
  by (simp add: str_nat.simps)


subsection \<open>Alias tables, assignments and releases by name\<close>

lemma lookup_scopes_cong:
  "map aliases scs = map aliases scs' \<Longrightarrow> lookup_scopes scs n = lookup_scopes scs' n"
proof (induction scs arbitrary: scs')
  case Nil
  then show ?case by simp
next
  case (Cons sc scs)
  then obtain sc' scs'' where "scs' = sc' # scs''" by (cases scs') auto
  with Cons show ?case by (auto split: option.splits)
qed

lemma lookup_alias_cong:
  "map aliases st = map aliases st' \<Longrightarrow> lookup_alias st n = lookup_alias st' n"
  unfolding lookup_alias_def by (rule lookup_scopes_cong) (simp add: rev_map[symmetric])

lemma call_signature_cong:
  "(\<And>n. lookup_alias st n = lookup_alias st' n) \<Longrightarrow> call_signature st c = call_signature st' c"
  by (induction st c rule: call_signature.induct) (simp_all split: option.splits prod.splits)

lemma call_signature_aliases:
  "map aliases st = map aliases st' \<Longrightarrow> call_signature st c = call_signature st' c"
  by (rule call_signature_cong) (rule lookup_alias_cong)

lemma quiet_aliases:
  "map aliases st = map aliases st' \<Longrightarrow> quiet st n = quiet st' n"
proof (induction st n rule: quiet.induct)
  case (3 st i l f a k)
  have "call_signature st (Call i l f a k) = call_signature st' (Call i l f a k)"
    using 3(4) by (rule call_signature_aliases)
  moreover have "quiet st f = quiet st' f" using 3 by simp
  moreover have "list_all (quiet st) a = list_all (quiet st') a"
    using 3 by (auto simp: list_all_iff)
  moreover have "list_all (quiet st) k = list_all (quiet st') k"
    using 3 by (auto simp: list_all_iff)
  ultimately show ?case by simp
qed (auto simp: list_all_iff split: option.splits)

lemma lookup_alias_push: "lookup_alias (st @ [new_Scope]) n = lookup_alias st n"
  by (simp add: lookup_alias_def new_Scope_def)

lemma call_signature_push: "call_signature (st @ [new_Scope]) c = call_signature st c"
  by (rule call_signature_cong) (rule lookup_alias_push)

lemma marks_list_all2:
  "marks K rs rs' \<longleftrightarrow>
     list_all2 (\<lambda>r r'. r' = r \<or> (kind r \<in> K \<and> r' = r\<lparr>released := True\<rparr>)) rs rs'"
  by (auto simp: marks_def list_all2_conv_all_nth)

lemma marks_append_fixed:
  assumes "marks K (xs @ ys) L" "\<forall>y\<in>set ys. kind y \<notin> K"
  shows "\<exists>xs'. L = xs' @ ys \<and> marks K xs xs'"
proof -
  from assms(1) obtain xs' ys' where L: "L = xs' @ ys'"
    and x: "list_all2 (\<lambda>r r'. r' = r \<or> (kind r \<in> K \<and> r' = r\<lparr>released := True\<rparr>)) xs xs'"
    and y: "list_all2 (\<lambda>r r'. r' = r \<or> (kind r \<in> K \<and> r' = r\<lparr>released := True\<rparr>)) ys ys'"
    unfolding marks_list_all2 by (auto simp: list_all2_append1)
  from y assms(2) have "list_all2 (=) ys ys'"
    by (auto simp: list_all2_conv_all_nth)
  then have "ys' = ys" by (simp add: list_all2_eq[symmetric])
  with L x show ?thesis by (auto simp: marks_list_all2)
qed

lemma marks_unreleased:
  assumes "marks K rs rs'"
  shows "filter_mset (\<lambda>r. \<not> released r) (mset rs') \<subseteq># filter_mset (\<lambda>r. \<not> released r) (mset rs)"
proof -
  from assms have "list_all2 (\<lambda>r r'. r' = r \<or> (kind r \<in> K \<and> r' = r\<lparr>released := True\<rparr>)) rs rs'"
    by (simp add: marks_list_all2)
  then show ?thesis
  proof (induction rule: list_all2_induct)
    case Nil
    then show ?case by simp
  next
    case (Cons r rs r' rs')
    then show ?case by (auto intro: subset_mset.order_trans)
  qed
qed

lemma report_marks_subset:
  assumes "marks K (records s) (records s')"
  shows "mset (report path s') \<subseteq># mset (report path s)"
  unfolding mset_report by (rule image_mset_subseteq_mono) (rule marks_unreleased[OF assms])

lemma add_record_named:
  assumes "scope_stack s \<noteq> []" "x \<noteq> []"
  shows "\<exists>s1 es. add_record (Some x) kd ln s = Some s1 \<and>
     records s1 = records s @ [\<lparr>name = Some x, kind = kd, lineno = ln, released = False\<rparr>] \<and>
     safe_calls s1 = safe_calls s \<and> assigned_calls s1 = assigned_calls s \<and>
     scope_stack s1 \<noteq> [] \<and> butlast (scope_stack s1) = butlast (scope_stack s) \<and>
     aliases (last (scope_stack s1)) = aliases (last (scope_stack s)) \<and>
     by_name (last (scope_stack s1)) x = Some (es @ [length (records s)])"
  using assms by (auto simp: add_record_def Let_def update_current_def split: option.splits)

lemma same_top_aliases:
  assumes "scope_stack s1 \<noteq> []" "scope_stack s \<noteq> []"
    "butlast (scope_stack s1) = butlast (scope_stack s)"
    "aliases (last (scope_stack s1)) = aliases (last (scope_stack s))"
  shows "map aliases (scope_stack s1) = map aliases (scope_stack s)"
proof -
  have "scope_stack s1 = butlast (scope_stack s1) @ [last (scope_stack s1)]"
    "scope_stack s = butlast (scope_stack s) @ [last (scope_stack s)]"
    using assms(1,2) by simp_all
  then have "map aliases (scope_stack s1) = map aliases (butlast (scope_stack s1)) @ [aliases (last (scope_stack s1))]"
    "map aliases (scope_stack s) = map aliases (butlast (scope_stack s)) @ [aliases (last (scope_stack s))]"
    by (metis list.simps(8,9) map_append)+
  with assms(3,4) show ?thesis by simp
qed

lemma visit_assign_acquisition:
  assumes ne: "scope_stack s \<noteq> []"
    and sig: "call_signature (scope_stack s) (Call i l f a k) = Some sig"
    and kd: "TARGET_SIGS sig = Some kd"
    and x: "x \<noteq> []"
    and q: "quiet (scope_stack s) f" "list_all (quiet (scope_stack s)) (a @ k)"
  shows "\<exists>s1 es. visit (Assign [Name x] (Call i l f a k)) s = Some s1 \<and>
     records s1 = records s @ [\<lparr>name = Some x, kind = kd, lineno = l, released = False\<rparr>] \<and>
     scope_stack s1 \<noteq> [] \<and> butlast (scope_stack s1) = butlast (scope_stack s) \<and>
     map aliases (scope_stack s1) = map aliases (scope_stack s) \<and>
     by_name (last (scope_stack s1)) x = Some (es @ [length (records s)])"
proof -
  let ?c = "Call i l f a k"
  let ?s0 = "s\<lparr>assigned_calls := insert i (assigned_calls s)\<rparr>"
  have ne0: "scope_stack ?s0 \<noteq> []" using ne by simp
  from add_record_named[OF ne0 x, of kd l] obtain s1 es where
    ar: "add_record (Some x) kd l ?s0 = Some s1"
    and r: "records s1 = records s @ [\<lparr>name = Some x, kind = kd, lineno = l, released = False\<rparr>]"
    and asg: "assigned_calls s1 = insert i (assigned_calls s)"
    and ne1: "scope_stack s1 \<noteq> []" and bl: "butlast (scope_stack s1) = butlast (scope_stack s)"
    and al: "aliases (last (scope_stack s1)) = aliases (last (scope_stack s))"
    and bn: "by_name (last (scope_stack s1)) x = Some (es @ [length (records s)])"
    by auto
  have ma: "map aliases (scope_stack s1) = map aliases (scope_stack s)"
    using ne1 ne bl al by (rule same_top_aliases)
  have ha: "handle_assignment [Name x] ?c s = Some s1"
    using sig kd TARGET_SIGS_kind_nonempty[OF kd] ar
    by (simp add: handle_assignment_def call_signature_from_expr_def)
  have rc: "record_call ?c s1 = Some s1"
    using asg by (simp add: record_call_def)
  have sig1: "call_signature (scope_stack s1) ?c = Some sig"
    using call_signature_aliases[OF ma] sig by simp
  have hr: "handle_release ?c s1 = s1"
    using sig1 kd by (rule handle_release_acquisition)
  have q1: "quiet (scope_stack s1) f" "list_all (quiet (scope_stack s1)) a"
    "list_all (quiet (scope_stack s1)) k"
    using q quiet_aliases[OF ma] by (simp_all add: list_all_iff)
  have "visit ?c s1 = Some s1"
    using rc hr q1 visit_quiet_all(1)[of s1 f] visit_quiet_all(2)[of s1] by simp
  with ha have "visit (Assign [Name x] ?c) s = Some s1" by simp
  with r ne1 bl ma bn show ?thesis by blast
qed

lemma quiet_sig_cong:
  "(\<And>c. call_signature st' c = call_signature st c) \<Longrightarrow> quiet st' n = quiet st n"
proof (induction n)
  case (Call i l f a k)
  have "quiet st' f = quiet st f" using Call by simp
  moreover have "list_all (quiet st') a = list_all (quiet st) a"
    using Call by (simp add: list_all_iff)
  moreover have "list_all (quiet st') k = list_all (quiet st) k"
    using Call by (simp add: list_all_iff)
  ultimately show ?case using Call.prems[of "Call i l f a k"] by simp
qed (simp_all add: list_all_iff split: option.splits)

lemma quiet_push: "quiet (st @ [new_Scope]) n = quiet st n"
  by (rule quiet_sig_cong) (rule call_signature_push)


lemma mark_released_top:
  assumes "scope_stack s \<noteq> []" "by_name (last (scope_stack s)) x = Some (es @ [j])"
    "\<not> released (records s ! j)" "kind (records s ! j) = kd" "x \<noteq> []"
  shows "mark_released (Some x) (Some kd) s =
     s\<lparr>records := (records s)[j := (records s ! j)\<lparr>released := True\<rparr>]\<rparr>"
proof -
  from assms(1) obtain st top where st: "scope_stack s = st @ [top]"
    by (cases "scope_stack s" rule: rev_cases) auto
  with assms(2) have "by_name top x = Some (es @ [j])" by simp
  then have "mark_scopes (top # rev st) x (Some kd) (records s) =
      (records s)[j := (records s ! j)\<lparr>released := True\<rparr>]"
    using assms(3,4) by simp
  with assms(5) st show ?thesis by (simp add: mark_released_def)
qed

lemma visit_list_single: "visit_list [n] s = visit n s"
  by (cases "visit n s") simp_all

lemma visit_Other_single: "visit (Other [n]) s = visit n s"
  by (simp only: visit.simps visit_list_single)

lemma mark_released_push:
  "mark_released nm k (push_scope s) = push_scope (mark_released nm k s)"
  by (auto simp: mark_released_def push_scope_def new_Scope_def split: option.splits)

lemma visit_release_by_name:
  assumes mk: "method_kind m = Some kd"
    and q: "list_all (quiet (scope_stack s)) (a @ k)"
  shows "\<exists>s'. visit (Call i l (Attribute (Name x) m) a k) s = Some s' \<and>
     release_step {''asyncio_task''} (mark_released (Some x) (Some kd) s) s' \<and>
     (kd = ''asyncio_task'' \<longrightarrow> s' = mark_released (Some x) (Some kd) s)"
proof -
  let ?c = "Call i l (Attribute (Name x) m) a k"
  let ?sm = "mark_released (Some x) (Some kd) s"
  obtain mn where sg: "call_signature (scope_stack s) ?c = Some (Some mn, m)"
    by (cases "lookup_alias (scope_stack s) x") simp
  have "TARGET_SIGS (Some mn, m) = None"
    using mk by (intro release_method_no_acquisition) simp
  with sg have rc: "record_call ?c s = Some s" by (simp add: record_call_def)
  have mc: "mark_chained (Name x) m s = s" by (simp add: mark_chained_def)
  have rm: "release_by_method (Attribute (Name x) m) s = ?sm"
    using mk by (simp add: release_by_method_Attribute mc)
  let ?s' = "release_task_args ?c ?sm"
  have hr: "handle_release ?c s = ?s'" by (simp add: handle_release_Call rm)
  have step: "release_step {''asyncio_task''} ?sm ?s'" by (rule release_task_args_step)
  have st: "scope_stack ?s' = scope_stack s"
    using step mark_released_step[of kd s "Some x"] by (simp add: release_step_def)
  have va: "visit_list a ?s' = Some ?s'" "visit_list k ?s' = Some ?s'"
    using q visit_quiet_all(2)[of ?s'] st by simp_all
  have v: "visit ?c s = Some ?s'"
    by (simp add: rc hr va)
  have "?s' = ?sm" if "kd = ''asyncio_task''"
  proof -
    from that mk method_kind_cases[OF mk] have "m = ''cancel''" by auto
    moreover have "call_signature (scope_stack ?sm) ?c = Some (Some mn, m)"
      using sg mark_released_step[of kd s "Some x"] by (simp add: release_step_def)
    ultimately show ?thesis
      by (simp add: release_task_args_def TASK_RELEASE_SIGS_def)
  qed
  with v step show ?thesis by blast
qed

lemma pop_push_state:
  assumes "release_step K (push_scope s0) s1"
  shows "\<exists>s'. pop_scope s1 = Some s' \<and> release_step K s0 s'"
proof -
  from assms have st: "scope_stack s1 = scope_stack s0 @ [new_Scope]"
    by (simp add: release_step_def push_scope_def)
  then have "pop_scope s1 = Some (s1\<lparr>scope_stack := scope_stack s0\<rparr>)"
    by (simp add: pop_scope_def)
  moreover have "release_step K s0 (s1\<lparr>scope_stack := scope_stack s0\<rparr>)"
    using assms by (simp add: release_step_def push_scope_def)
  ultimately show ?thesis by blast
qed

lemma visit_nested_release:
  assumes mk: "method_kind m = Some kd"
  shows "list_all (quiet (scope_stack s)) (a @ k) \<Longrightarrow>
     \<exists>s'. visit (nested_def bs (Other [Call i l (Attribute (Name x) m) a k])) s = Some s' \<and>
     release_step {''asyncio_task''} (mark_released (Some x) (Some kd) s) s' \<and>
     (kd = ''asyncio_task'' \<longrightarrow> s' = mark_released (Some x) (Some kd) s)"
proof (induction bs arbitrary: s)
  case Nil
  from visit_release_by_name[OF mk Nil, of i l x] show ?case
    by (simp only: nested_def.simps visit_Other_single)
next
  case (Cons b bs)
  let ?n = "nested_def bs (Other [Call i l (Attribute (Name x) m) a k])"
  have "list_all (quiet (scope_stack (push_scope s))) (a @ k)"
    using Cons.prems by (simp add: push_scope_def quiet_push list_all_iff)
  from Cons.IH[OF this] obtain s1 where
    v: "visit ?n (push_scope s) = Some s1"
    and st: "release_step {''asyncio_task''} (mark_released (Some x) (Some kd) (push_scope s)) s1"
    and eq: "kd = ''asyncio_task'' \<longrightarrow> s1 = mark_released (Some x) (Some kd) (push_scope s)"
    by blast
  from pop_push_state[OF st[unfolded mark_released_push]] obtain s' where
    p: "pop_scope s1 = Some s'"
    and st': "release_step {''asyncio_task''} (mark_released (Some x) (Some kd) s) s'"
    by blast
  have "s' = mark_released (Some x) (Some kd) s" if "kd = ''asyncio_task''"
  proof -
    from that eq have "s1 = push_scope (mark_released (Some x) (Some kd) s)"
      by (simp add: mark_released_push)
    with p show ?thesis by (simp add: pop_scope_def push_scope_def)
  qed
  moreover have "visit (nested_def (b # bs) (Other [Call i l (Attribute (Name x) m) a k])) s
      = Some s'"
    using v p by (cases b) (simp_all add: visit_list_single)
  ultimately show ?case using st' by blast
qed

lemma visit_list_Cons_Some:
  "visit n s = Some s1 \<Longrightarrow> visit_list (n # ns) s = visit_list ns s1"
  by simp

lemma released_after_release:
  assumes step: "release_step {''asyncio_task''} sm s'"
    and eq: "kd = ''asyncio_task'' \<longrightarrow> s' = sm"
    and rs: "records sm = rs @ ys" and ys: "\<forall>y\<in>set ys. kind y = kd"
  shows "\<exists>xs'. records s' = xs' @ ys \<and> marks {''asyncio_task''} rs xs'"
proof (cases "kd = ''asyncio_task''")
  case True
  with eq rs show ?thesis by (auto intro: marks_refl)
next
  case False
  from step rs have "marks {''asyncio_task''} (rs @ ys) (records s')"
    by (simp add: release_step_def)
  moreover from False ys have "\<forall>y\<in>set ys. kind y \<notin> {''asyncio_task''}" by simp
  ultimately show ?thesis by (rule marks_append_fixed)
qed

lemma report_two:
  assumes "\<not> released r1" "released r2"
  shows "report path (s\<lparr>records := [r1, r2]\<rparr>) = [format_issue path r1]"
  using assms by (simp add: report_def)

subsection \<open>Task-consuming combinators\<close>

lemma nth_beyond_eq:
  "length xs = length ys \<Longrightarrow> length xs \<le> i \<Longrightarrow> xs ! i = ys ! i"
proof (induction xs arbitrary: ys i)
  case Nil
  then show ?case by simp
next
  case (Cons x xs)
  then obtain y ys' where ys: "ys = y # ys'" by (cases ys) auto
  from Cons.prems obtain i' where i: "i = Suc i'" by (cases i) auto
  with Cons ys show ?case by simp
qed

lemma marks_kind: "marks K rs rs' \<Longrightarrow> kind (rs' ! i) = kind (rs ! i)"
proof (cases "i < length rs")
  case True
  assume "marks K rs rs'"
  with True show ?thesis by (auto simp: marks_def)
next
  case False
  assume "marks K rs rs'"
  then have "length rs' = length rs" by (simp add: marks_def)
  with False nth_beyond_eq[of rs' rs i] show ?thesis by simp
qed

lemma marks_released_mono:
  "marks K rs rs' \<Longrightarrow> i < length rs \<Longrightarrow> released (rs ! i) \<Longrightarrow> released (rs' ! i)"
  by (auto simp: marks_def)

lemma latest_of_kind_marks:
  "marks K rs rs' \<Longrightarrow> latest_of_kind es kd rs' = latest_of_kind es kd rs"
  by (induction es) (simp_all add: marks_kind)

lemma bound_record_marks:
  "marks K rs rs' \<Longrightarrow> bound_record scs x kd rs' = bound_record scs x kd rs"
  by (induction scs) (simp_all add: latest_of_kind_marks split: option.splits)

lemma mark_entries_marks:
  "mark_entries es k rs = Some rs' \<Longrightarrow> marks UNIV rs rs'"
  by (drule mark_entries_Some) (auto intro: marks_update)

lemma mark_entries_latest:
  "latest_of_kind es kd rs = Some j \<Longrightarrow> j < length rs \<Longrightarrow>
     (case mark_entries es (Some kd) rs of
        Some rs' \<Rightarrow> released (rs' ! j)
      | None \<Rightarrow> released (rs ! j))"
proof (induction es)
  case Nil
  then show ?case by simp
next
  case (Cons e es)
  show ?case
  proof (cases "kind (rs ! e) = kd")
    case True
    with Cons.prems have ej: "e = j" by simp
    show ?thesis
    proof (cases "released (rs ! j)")
      case False
      with True ej Cons.prems show ?thesis by simp
    next
      case r: True
      then have "mark_entries (e # es) (Some kd) rs = mark_entries es (Some kd) rs"
        using ej by simp
      moreover have "released (rs' ! j)" if "mark_entries es (Some kd) rs = Some rs'" for rs'
        using marks_released_mono[OF mark_entries_marks[OF that] Cons.prems(2) r] .
      ultimately show ?thesis using r by (auto split: option.splits)
    qed
  next
    case False
    with Cons show ?thesis by simp
  qed
qed

lemma mark_entries_no_kind:
  "latest_of_kind es kd rs = None \<Longrightarrow> mark_entries es (Some kd) rs = None"
  by (induction es) (auto split: if_splits)

lemma mark_scopes_released_mono:
  "j < length rs \<Longrightarrow> released (rs ! j) \<Longrightarrow> released (mark_scopes scs x k rs ! j)"
  using mark_scopes_marks[of k rs scs x] by (rule marks_released_mono)

lemma mark_scopes_bound:
  "bound_record scs x kd rs = Some j \<Longrightarrow> j < length rs \<Longrightarrow>
     released (mark_scopes scs x (Some kd) rs ! j)"
proof (induction scs)
  case Nil
  then show ?case by simp
next
  case (Cons sc scs)
  show ?case
  proof (cases "by_name sc x")
    case None
    with Cons show ?thesis by simp
  next
    case (Some entries)
    show ?thesis
    proof (cases "latest_of_kind (rev entries) kd rs")
      case None
      with Some Cons mark_entries_no_kind[OF None] show ?thesis by simp
    next
      case l: (Some e)
      with Some Cons.prems have ej: "e = j" by simp
      from l have ne: "entries \<noteq> []" by auto
      from mark_entries_latest[OF l[unfolded ej] Cons.prems(2)]
      show ?thesis
        using Some ne mark_scopes_released_mono[OF Cons.prems(2)]
        by (auto split: option.splits)
    qed
  qed
qed

lemma mark_released_bound:
  assumes "bound_record (rev (scope_stack s)) x kd (records s) = Some j" "j < length (records s)"
    "x \<noteq> []"
  shows "released (records (mark_released (Some x) (Some kd) s) ! j)"
  using assms mark_scopes_bound by (simp add: mark_released_def)


lemma task_done_stable:
  assumes "release_step K1 s t" "release_step K2 t t'" "release_step K3 t' u"
    and "task_done leaf t t'"
  shows "task_done leaf s u"
proof -
  from assms(1) have st: "scope_stack t = scope_stack s"
    and m1: "marks K1 (records s) (records t)" by (simp_all add: release_step_def)
  from assms(2) have m2: "marks K2 (records t) (records t')" by (simp add: release_step_def)
  from assms(3) have m3: "marks K3 (records t') (records u)"
    and sf: "safe_calls t' \<subseteq> safe_calls u" by (simp_all add: release_step_def)
  from m1 have l1: "length (records t) = length (records s)" by (simp add: marks_def)
  from m2 have l2: "length (records t') = length (records t)" by (simp add: marks_def)
  have "released (records u ! j)"
    if "leaf = Name x" "x \<noteq> []" "j < length (records s)"
      "bound_record (rev (scope_stack s)) x ''asyncio_task'' (records s) = Some j" for x j
  proof -
    from that(4) have "bound_record (rev (scope_stack t)) x ''asyncio_task'' (records t) = Some j"
      by (simp add: st bound_record_marks[OF m1])
    with assms(4) that l1 have "released (records t' ! j)"
      by (simp add: task_done_def)
    with m3 that(3) l1 l2 show ?thesis by (auto intro: marks_released_mono)
  qed
  moreover have "i \<in> safe_calls u"
    if "leaf = Call i l f a k" "call_signature (scope_stack s) leaf = Some sig"
      "TARGET_SIGS sig = Some ''asyncio_task''" for i l f a k sig
  proof -
    from assms(4) have "\<forall>i l f a k sig. leaf = Call i l f a k \<and>
        call_signature (scope_stack t) leaf = Some sig \<and> TARGET_SIGS sig = Some ''asyncio_task''
        \<longrightarrow> i \<in> safe_calls t'"
      unfolding task_done_def by (rule conjunct2)
    moreover from that(2) st have "call_signature (scope_stack t) leaf = Some sig" by simp
    ultimately have "i \<in> safe_calls t'" using that(1,3) by blast
    with sf show ?thesis by blast
  qed
  ultimately show ?thesis unfolding task_done_def by blast
qed

lemma fold_task_done:
  assumes IH: "\<And>e t. e \<in> set es \<Longrightarrow> leaf \<in> set (task_leaves e) \<Longrightarrow>
      task_done leaf t (mark_task_released_from_expr e t)"
    and e: "e \<in> set es" "leaf \<in> set (task_leaves e)"
  shows "task_done leaf s (fold mark_task_released_from_expr es s)"
proof -
  from e(1) obtain pre post where es: "es = pre @ e # post" by (auto dest: split_list)
  let ?f = mark_task_released_from_expr
  let ?t = "fold ?f pre s"
  have 1: "release_step {''asyncio_task''} s ?t"
    by (rule fold_release_step) (rule mark_task_step)
  have 2: "release_step {''asyncio_task''} ?t (?f e ?t)" by (rule mark_task_step)
  have 3: "release_step {''asyncio_task''} (?f e ?t) (fold ?f post (?f e ?t))"
    by (rule fold_release_step) (rule mark_task_step)
  have "task_done leaf ?t (?f e ?t)" using e by (rule IH)
  from task_done_stable[OF 1 2 3 this] show ?thesis by (simp add: es)
qed

lemma mark_task_done:
  "leaf \<in> set (task_leaves e) \<Longrightarrow> task_done leaf s (mark_task_released_from_expr e s)"
proof (induction e s rule: mark_task_released_from_expr.induct)
  case (1 i s)
  then show ?case by (auto simp: task_done_def intro: mark_released_bound)
next
  case (2 i l f a k s)
  then show ?case by (auto simp: task_done_def)
next
  case (3 v s)
  then show ?case by simp
next
  case (4 elts s)
  from 4(2) obtain e where e: "e \<in> set elts" "leaf \<in> set (task_leaves e)" by auto
  have "task_done leaf s (fold mark_task_released_from_expr elts s)"
    by (rule fold_task_done[OF _ e]) (rule 4(1))
  then show ?case by simp
next
  case (5 elts s)
  from 5(2) obtain e where e: "e \<in> set elts" "leaf \<in> set (task_leaves e)" by auto
  have "task_done leaf s (fold mark_task_released_from_expr elts s)"
    by (rule fold_task_done[OF _ e]) (rule 5(1))
  then show ?case by simp
next
  case (6 elts s)
  from 6(2) obtain e where e: "e \<in> set elts" "leaf \<in> set (task_leaves e)" by auto
  have "task_done leaf s (fold mark_task_released_from_expr elts s)"
    by (rule fold_task_done[OF _ e]) (rule 6(1))
  then show ?case by simp
qed simp_all

lemma handle_release_task_done:
  assumes sig: "call_signature (scope_stack s) (Call i l f a k) = Some sig"
    and task: "sig \<in> TASK_RELEASE_SIGS"
    and arg: "arg \<in> set (a @ k)" and leaf: "leaf \<in> set (task_leaves arg)"
  shows "task_done leaf s (handle_release (Call i l f a k) s)"
proof -
  let ?c = "Call i l f a k"
  let ?s1 = "release_by_method f s"
  let ?f = mark_task_released_from_expr
  have 1: "release_step UNIV s ?s1"
    by (rule release_step_mono[OF release_by_method_step]) simp
  then have st: "scope_stack ?s1 = scope_stack s" by (simp add: release_step_def)
  have hr: "handle_release ?c s = fold ?f (a @ k) ?s1"
    using sig task by (simp add: handle_release_Call release_task_args_def st)
  have td: "task_done leaf ?s1 (fold ?f (a @ k) ?s1)"
    by (rule fold_task_done[OF _ arg leaf]) (rule mark_task_done)
  have 2: "release_step {''asyncio_task''} ?s1 (fold ?f (a @ k) ?s1)"
    by (rule fold_release_step) (rule mark_task_step)
  from task_done_stable[OF 1 2 release_step_refl td] show ?thesis by (simp only: hr)
qed

subsection \<open>Records and safe calls along a traversal\<close>

lemma update_current_safe: "update_current f s = Some s' \<Longrightarrow> safe_calls s' = safe_calls s"
  by (auto simp: update_current_def split: if_splits)

lemma add_record_safe: "add_record nm k ln s = Some s' \<Longrightarrow> safe_calls s' = safe_calls s"
  by (auto simp: add_record_def Let_def update_current_def split: option.splits if_splits)



lemma later_refl: "later s s"
  unfolding later_def using marks_refl[of UNIV "records s"] by (metis append_Nil2 subset_refl)

lemma marks_append_split:
  assumes "marks K (xs @ ys) L"
  shows "\<exists>xs' ys'. L = xs' @ ys' \<and> marks K xs xs' \<and> marks K ys ys'"
  using assms unfolding marks_list_all2 by (auto simp: list_all2_append1)

lemma later_trans:
  assumes "later s s'" "later s' s''"
  shows "later s s''"
proof -
  from assms(1) obtain xs ys where 1: "records s' = xs @ ys" "marks UNIV (records s) xs"
    and sf1: "safe_calls s \<subseteq> safe_calls s'" unfolding later_def by blast
  from assms(2) obtain xs2 ys2 where 2: "records s'' = xs2 @ ys2" "marks UNIV (records s') xs2"
    and sf2: "safe_calls s' \<subseteq> safe_calls s''" unfolding later_def by blast
  from marks_append_split[OF 2(2)[unfolded 1(1)]] obtain xs' ys' where
    3: "xs2 = xs' @ ys'" "marks UNIV xs xs'" by blast
  have "records s'' = xs' @ (ys' @ ys2)" using 2(1) 3(1) by simp
  moreover have "marks UNIV (records s) xs'" using 1(2) 3(2) by (rule marks_trans)
  ultimately show ?thesis using sf1 sf2 unfolding later_def by blast
qed

lemma release_step_later: "release_step K s s' \<Longrightarrow> later s s'"
  unfolding later_def release_step_def
  using marks_mono[of K "records s" "records s'" UNIV] by (metis append_Nil2 subset_UNIV)

lemma later_fields:
  "records s' = records s \<Longrightarrow> safe_calls s' = safe_calls s \<Longrightarrow> later s s'"
  unfolding later_def using marks_refl[of UNIV "records s"] by (metis append_Nil2 subset_refl)

lemma update_current_later: "update_current f s = Some s' \<Longrightarrow> later s s'"
  by (rule later_fields) (auto simp: update_current_def split: if_splits)

lemma add_record_later: "add_record nm k ln s = Some s' \<Longrightarrow> later s s'"
  unfolding later_def
  using add_record_records[of nm k ln s s'] add_record_safe[of nm k ln s s']
    marks_refl[of UNIV "records s"] by auto

lemma add_records_later: "add_records ns k ln s = Some s' \<Longrightarrow> later s s'"
proof (induction ns arbitrary: s)
  case Nil
  then show ?case by (simp add: later_refl)
next
  case (Cons n ns)
  from Cons.prems obtain s1 where 1: "add_record (Some n) k ln s = Some s1"
    and 2: "add_records ns k ln s1 = Some s'" by (auto simp: bind_eq_Some_conv)
  from add_record_later[OF 1] Cons.IH[OF 2] show ?case by (rule later_trans)
qed

lemma record_call_later: "record_call c s = Some s' \<Longrightarrow> later s s'"
proof (cases c)
  case (Call i l f a k)
  assume "record_call c s = Some s'"
  then have "s' = s \<or> (\<exists>kd. add_record None kd l s = Some s')"
    unfolding Call record_call_def node.case
    by (auto split: option.splits if_splits)
  then show ?thesis using add_record_later later_refl by blast
qed (simp_all add: record_call_def later_refl)

lemma handle_assignment_later: "handle_assignment ts v s = Some s' \<Longrightarrow> later s s'"
proof (cases v)
  case (Call i l f a k)
  let ?s1 = "s\<lparr>assigned_calls := insert i (assigned_calls s)\<rparr>"
  have 0: "later s ?s1" by (rule later_fields) simp_all
  assume "handle_assignment ts v s = Some s'"
  then have "s' = s \<or> (\<exists>kd. add_record None kd l ?s1 = Some s') \<or>
      (\<exists>kd ns. add_records ns kd l ?s1 = Some s')"
    unfolding Call handle_assignment_def node.case
    by (auto simp: Let_def split: option.splits if_splits)
  then show ?thesis
    using add_record_later[of _ _ l ?s1 s'] add_records_later[of _ _ l ?s1 s'] later_refl[of s]
      later_trans[OF 0] by auto
qed (simp_all add: handle_assignment_def later_refl)

lemma visit_Import_later: "visit_Import names s = Some s' \<Longrightarrow> later s s'"
proof (induction names arbitrary: s)
  case Nil
  then show ?case by (simp add: later_refl)
next
  case (Cons a names)
  obtain nm asname where a: "a = (nm, asname)" by (cases a)
  from Cons.prems obtain s1 where
    1: "update_current (\<lambda>sc. sc\<lparr>aliases := (aliases sc)(py_or asname nm \<mapsto> (Some nm, None))\<rparr>) s = Some s1"
    and 2: "visit_Import names s1 = Some s'"
    unfolding a by (auto simp: bind_eq_Some_conv)
  from update_current_later[OF 1] Cons.IH[OF 2] show ?case by (rule later_trans)
qed

lemma visit_ImportFrom_later: "visit_ImportFrom m names s = Some s' \<Longrightarrow> later s s'"
proof (induction names arbitrary: s)
  case Nil
  then show ?case by (simp add: later_refl)
next
  case (Cons a names)
  obtain nm asname where a: "a = (nm, asname)" by (cases a)
  show ?case
  proof (cases "nm = ''*''")
    case True
    with Cons a show ?thesis by simp
  next
    case False
    with Cons.prems obtain s1 where
      1: "update_current (\<lambda>sc. sc\<lparr>aliases := (aliases sc)(py_or asname nm \<mapsto> (Some (py_or m []), Some nm))\<rparr>) s = Some s1"
      and 2: "visit_ImportFrom m names s1 = Some s'"
      unfolding a by (auto simp: bind_eq_Some_conv)
    from update_current_later[OF 1] Cons.IH[OF 2] show ?thesis by (rule later_trans)
  qed
qed

lemma pop_scope_later: "pop_scope s = Some s' \<Longrightarrow> later s s'"
  by (rule later_fields) (auto simp: pop_scope_def split: if_splits)

lemma push_scope_later: "later s (push_scope s)"
  by (rule later_fields) (simp_all add: push_scope_def)

lemma visit_later_all:
  "\<forall>s'. visit n s = Some s' \<longrightarrow> later s s'"
  "\<forall>s'. visit_list ns s = Some s' \<longrightarrow> later s s'"
  "\<forall>s'. visit_opt v s = Some s' \<longrightarrow> later s s'"
  "\<forall>s'. visit_items items s = Some s' \<longrightarrow> later s s'"
proof (induction n s and ns s and v s and items s rule: visit_visit_list_visit_opt_visit_items.induct)
  case (3 i l f a k s)
  show ?case
  proof (intro allI impI)
    fix s' assume "visit (Call i l f a k) s = Some s'"
    then obtain s1 s2 s3 where r: "record_call (Call i l f a k) s = Some s1"
      and f: "visit f (handle_release (Call i l f a k) s1) = Some s2"
      and a: "visit_list a s2 = Some s3" and k: "visit_list k s3 = Some s'"
      by (auto simp: bind_eq_Some_conv)
    have "later s s1" using r by (rule record_call_later)
    also have "later s1 (handle_release (Call i l f a k) s1)"
      by (rule release_step_later[OF handle_release_step])
    also (later_trans) have "later (handle_release (Call i l f a k) s1) s2" using 3(1)[OF r] f by blast
    also (later_trans) have "later s2 s3" using 3(2)[OF r f] a by blast
    also (later_trans) have "later s3 s'" using 3(3)[OF r f a] k by blast
    finally (later_trans) show "later s s'" .
  qed
next
  case (4 v s)
  show ?case
  proof (intro allI impI)
    fix s' assume "visit (Await v) s = Some s'"
    then have "later (await_release v s) s'" using 4 by simp
    with release_step_later[OF await_release_step, of s v] show "later s s'"
      by (rule later_trans)
  qed
next
  case (9 children s)
  show ?case
  proof (intro allI impI)
    fix s' assume "visit (FunctionDef children) s = Some s'"
    then obtain s1 where c: "visit_list children (push_scope s) = Some s1"
      and p: "pop_scope s1 = Some s'" by (auto simp: bind_eq_Some_conv)
    have "later s (push_scope s)" by (rule push_scope_later)
    also have "later (push_scope s) s1" using 9 c by blast
    also (later_trans) have "later s1 s'" using p by (rule pop_scope_later)
    finally (later_trans) show "later s s'" .
  qed
next
  case (10 children s)
  show ?case
  proof (intro allI impI)
    fix s' assume "visit (AsyncFunctionDef children) s = Some s'"
    then obtain s1 where c: "visit_list children (push_scope s) = Some s1"
      and p: "pop_scope s1 = Some s'" by (auto simp: bind_eq_Some_conv)
    have "later s (push_scope s)" by (rule push_scope_later)
    also have "later (push_scope s) s1" using 10 c by blast
    also (later_trans) have "later s1 s'" using p by (rule pop_scope_later)
    finally (later_trans) show "later s s'" .
  qed
next
  case (11 names s)
  then show ?case using visit_Import_later[of names s] by simp
next
  case (12 m names s)
  then show ?case using visit_ImportFrom_later[of m names s] by simp
next
  case (13 items body s)
  show ?case
  proof (intro allI impI)
    fix s' assume "visit (With items body) s = Some s'"
    then obtain s1 where i: "visit_items items (mark_context_safe items s) = Some s1"
      and b: "visit_list body s1 = Some s'" by (auto simp: bind_eq_Some_conv)
    have "later s (mark_context_safe items s)"
      by (rule release_step_later[OF mark_context_safe_step])
    also have "later (mark_context_safe items s) s1" using 13(1) i by blast
    also (later_trans) have "later s1 s'" using 13(2)[OF i] b by blast
    finally (later_trans) show "later s s'" .
  qed
next
  case (14 items body s)
  show ?case
  proof (intro allI impI)
    fix s' assume "visit (AsyncWith items body) s = Some s'"
    then obtain s1 where i: "visit_items items (mark_context_safe items s) = Some s1"
      and b: "visit_list body s1 = Some s'" by (auto simp: bind_eq_Some_conv)
    have "later s (mark_context_safe items s)"
      by (rule release_step_later[OF mark_context_safe_step])
    also have "later (mark_context_safe items s) s1" using 14(1) i by blast
    also (later_trans) have "later s1 s'" using 14(2)[OF i] b by blast
    finally (later_trans) show "later s s'" .
  qed
next
  case (15 targets v s)
  show ?case
  proof (intro allI impI)
    fix s' assume "visit (Assign targets v) s = Some s'"
    then obtain s1 s2 where h: "handle_assignment targets v s = Some s1"
      and t: "visit_list targets s1 = Some s2" and v: "visit v s2 = Some s'"
      by (auto simp: bind_eq_Some_conv)
    have "later s s1" using h by (rule handle_assignment_later)
    also have "later s1 s2" using 15(1)[OF h] t by blast
    also (later_trans) have "later s2 s'" using 15(2)[OF h t] v by blast
    finally (later_trans) show "later s s'" .
  qed
next
  case (16 target annotation v s)
  show ?case
  proof (intro allI impI)
    fix s' assume "visit (AnnAssign target annotation v) s = Some s'"
    then obtain s1 s2 s3 where
      h: "(case v of None \<Rightarrow> Some s | Some e \<Rightarrow> handle_assignment [target] e s) = Some s1"
      and t: "visit target s1 = Some s2" and a: "visit annotation s2 = Some s3"
      and v: "visit_opt v s3 = Some s'"
      by (auto simp: bind_eq_Some_conv)
    have "later s s1" using h
      by (cases v) (auto simp: later_refl intro: handle_assignment_later)
    also have "later s1 s2" using 16(1)[OF h] t by blast
    also (later_trans) have "later s2 s3" using 16(2)[OF h t] a by blast
    also (later_trans) have "later s3 s'" using 16(3)[OF h t a] v by blast
    finally (later_trans) show "later s s'" .
  qed
next
  case (23 n ns s)
  show ?case
  proof (intro allI impI)
    fix s' assume "visit_list (n # ns) s = Some s'"
    then obtain s1 where n: "visit n s = Some s1" and ns: "visit_list ns s1 = Some s'"
      by (auto simp: bind_eq_Some_conv)
    have "later s s1" using 23(1) n by blast
    also have "later s1 s'" using 23(2)[OF n] ns by blast
    finally (later_trans) show "later s s'" .
  qed
next
  case (27 ctx vars items s)
  show ?case
  proof (intro allI impI)
    fix s' assume "visit_items ((ctx, vars) # items) s = Some s'"
    then obtain s1 s2 where c: "visit ctx s = Some s1" and v: "visit_opt vars s1 = Some s2"
      and i: "visit_items items s2 = Some s'"
      by (auto simp: bind_eq_Some_conv)
    have "later s s1" using 27(1) c by blast
    also have "later s1 s2" using 27(2)[OF c] v by blast
    also (later_trans) have "later s2 s'" using 27(3)[OF c v] i by blast
    finally (later_trans) show "later s s'" .
  qed
qed (simp_all add: later_refl)

lemma later_released:
  assumes "later s s'" "j < length (records s)" "released (records s ! j)"
  shows "j < length (records s') \<and> released (records s' ! j)"
proof -
  from assms(1) obtain xs ys where r: "records s' = xs @ ys" and m: "marks UNIV (records s) xs"
    unfolding later_def by blast
  from m have l: "length xs = length (records s)" by (simp add: marks_def)
  from marks_released_mono[OF m assms(2,3)] r l assms(2) show ?thesis
    by (simp add: nth_append)
qed

lemma later_safe: "later s s' \<Longrightarrow> i \<in> safe_calls s \<Longrightarrow> i \<in> safe_calls s'"
  unfolding later_def by blast

subsection \<open>Marking of context expressions\<close>

lemma fold_safe_member:
  fixes g :: "'x \<Rightarrow> Analyzer \<Rightarrow> Analyzer"
  assumes "\<And>y t. y \<in> set xs \<Longrightarrow> release_step {} t (g y t)"
    and "x \<in> set xs"
    and "\<And>t. scope_stack t = scope_stack s \<Longrightarrow> i \<in> safe_calls (g x t)"
  shows "i \<in> safe_calls (fold g xs s)"
  using assms
proof (induction xs arbitrary: s)
  case Nil
  then show ?case by simp
next
  case (Cons y ys)
  have st: "release_step {} s (g y s)" using Cons.prems(1) by simp
  show ?case
  proof (cases "x = y")
    case True
    have "i \<in> safe_calls (g y s)" using Cons.prems(3)[of s] True by simp
    moreover have "release_step {} (g y s) (fold g ys (g y s))"
      by (rule fold_release_step) (use Cons.prems(1) in simp)
    ultimately show ?thesis by (auto simp: release_step_def)
  next
    case False
    with Cons.prems(2) have "x \<in> set ys" by simp
    moreover have "\<And>t. scope_stack t = scope_stack (g y s) \<Longrightarrow> i \<in> safe_calls (g x t)"
      using Cons.prems(3) st by (simp add: release_step_def)
    ultimately have "i \<in> safe_calls (fold g ys (g y s))"
      using Cons.IH[of "g y s"] Cons.prems(1) by simp
    then show ?thesis by simp
  qed
qed

lemma context_calls_marked:
  assumes "Call i l f a k \<in> set (context_calls e)"
    and "call_signature (scope_stack s) (Call i l f a k) = Some sig"
    and "TARGET_SIGS sig = Some kd"
  shows "i \<in> safe_calls (mark_safe_calls e s)"
  using assms
proof (induction e arbitrary: s)
  case (Call i' l' f' a' k')
  let ?s1 = "(case call_signature (scope_stack s) (Call i' l' f' a' k') of
                 None \<Rightarrow> s
               | Some sig \<Rightarrow>
                   if TARGET_SIGS sig \<noteq> None then s\<lparr>safe_calls := insert i' (safe_calls s)\<rparr>
                   else s)"
  have st1: "release_step {} s ?s1"
    by (auto simp: safe_insert_step release_step_refl split: option.splits)
  have sta: "release_step {} ?s1 (fold mark_safe_calls a' ?s1)"
    by (rule fold_release_step) (rule mark_safe_calls_step)
  have stk: "release_step {} (fold mark_safe_calls a' ?s1)
      (fold mark_safe_calls k' (fold mark_safe_calls a' ?s1))"
    by (rule fold_release_step) (rule mark_safe_calls_step)
  have eq: "mark_safe_calls (Call i' l' f' a' k') s =
      fold mark_safe_calls k' (fold mark_safe_calls a' ?s1)"
    by (simp add: Let_def)
  from Call.prems(1) consider
      (self) "Call i l f a k = Call i' l' f' a' k'"
    | (arg) x where "x \<in> set a'" "Call i l f a k \<in> set (context_calls x)"
    | (kw) x where "x \<in> set k'" "Call i l f a k \<in> set (context_calls x)"
    by auto
  then show ?case
  proof cases
    case self
    with Call.prems(2,3) have "i \<in> safe_calls ?s1" by simp
    with sta stk show ?thesis unfolding eq by (auto simp: release_step_def)
  next
    case arg
    have "i \<in> safe_calls (fold mark_safe_calls a' ?s1)"
    proof (rule fold_safe_member[OF mark_safe_calls_step arg(1)])
      fix t :: Analyzer assume "scope_stack t = scope_stack ?s1"
      with st1 have "scope_stack t = scope_stack s" by (simp add: release_step_def)
      with Call.IH(2)[OF arg(1) arg(2), of t] Call.prems(2,3)
      show "i \<in> safe_calls (mark_safe_calls x t)" by simp
    qed
    with stk show ?thesis unfolding eq by (auto simp: release_step_def)
  next
    case kw
    show ?thesis unfolding eq
    proof (rule fold_safe_member[OF mark_safe_calls_step kw(1)])
      fix t :: Analyzer assume "scope_stack t = scope_stack (fold mark_safe_calls a' ?s1)"
      with st1 sta have "scope_stack t = scope_stack s" by (simp add: release_step_def)
      with Call.IH(3)[OF kw(1) kw(2), of t] Call.prems(2,3)
      show "i \<in> safe_calls (mark_safe_calls x t)" by simp
    qed
  qed
qed simp_all

lemma context_item_marked:
  assumes "item \<in> set items"
    and "Call i l f a k \<in> set (context_calls (fst item))"
    and "call_signature (scope_stack s) (Call i l f a k) = Some sig"
    and "TARGET_SIGS sig = Some kd"
  shows "i \<in> safe_calls (mark_context_safe items s)"
  unfolding mark_context_safe_def
proof (rule fold_safe_member[OF _ assms(1)])
  fix y and t :: Analyzer show "release_step {} t (mark_safe_calls (fst y) t)" by (rule mark_safe_calls_step)
next
  fix t :: Analyzer assume "scope_stack t = scope_stack s"
  with assms(3) have "call_signature (scope_stack t) (Call i l f a k) = Some sig" by simp
  from context_calls_marked[OF assms(2) this assms(4)]
  show "i \<in> safe_calls (mark_safe_calls (fst item) t)" .
qed


subsection \<open>Records created by an acquisition\<close>

lemma add_record_frame:
  assumes "scope_stack s \<noteq> []"
  shows "\<exists>s1. add_record nm kd ln s = Some s1 \<and>
     records s1 = records s @ [\<lparr>name = nm, kind = kd, lineno = ln, released = False\<rparr>] \<and>
     safe_calls s1 = safe_calls s \<and> assigned_calls s1 = assigned_calls s \<and>
     scope_stack s1 \<noteq> [] \<and> map aliases (scope_stack s1) = map aliases (scope_stack s)"
proof -
  from assms obtain st top where st: "scope_stack s = st @ [top]"
    by (cases "scope_stack s" rule: rev_cases) auto
  then show ?thesis
    by (cases nm) (simp_all add: add_record_def Let_def update_current_def)
qed

lemma add_records_frame:
  "scope_stack s \<noteq> [] \<Longrightarrow>
   \<exists>s1. add_records names kd ln s = Some s1 \<and>
     records s1 = records s @
       map (\<lambda>x. \<lparr>name = Some x, kind = kd, lineno = ln, released = False\<rparr>) names \<and>
     safe_calls s1 = safe_calls s \<and> assigned_calls s1 = assigned_calls s \<and>
     scope_stack s1 \<noteq> [] \<and> map aliases (scope_stack s1) = map aliases (scope_stack s)"
proof (induction names arbitrary: s)
  case Nil
  then show ?case by simp
next
  case (Cons x xs)
  from add_record_frame[OF Cons.prems, of "Some x" kd ln] obtain s1 where
    1: "add_record (Some x) kd ln s = Some s1"
    "records s1 = records s @ [\<lparr>name = Some x, kind = kd, lineno = ln, released = False\<rparr>]"
    "safe_calls s1 = safe_calls s" "assigned_calls s1 = assigned_calls s"
    "scope_stack s1 \<noteq> []" "map aliases (scope_stack s1) = map aliases (scope_stack s)"
    by blast
  from Cons.IH[OF 1(5)] obtain s2 where
    2: "add_records xs kd ln s1 = Some s2"
    "records s2 = records s1 @
       map (\<lambda>x. \<lparr>name = Some x, kind = kd, lineno = ln, released = False\<rparr>) xs"
    "safe_calls s2 = safe_calls s1" "assigned_calls s2 = assigned_calls s1"
    "scope_stack s2 \<noteq> []" "map aliases (scope_stack s2) = map aliases (scope_stack s1)"
    by blast
  have "add_records (x # xs) kd ln s = Some s2" using 1(1) 2(1) by simp
  with 1 2 show ?case by simp
qed

lemma visit_known_acquisition:
  assumes known: "i \<in> assigned_calls s \<or> i \<in> safe_calls s"
    and sig: "call_signature (scope_stack s) (Call i l f a k) = Some sig"
    and kd: "TARGET_SIGS sig = Some kd"
    and q: "quiet (scope_stack s) f" "list_all (quiet (scope_stack s)) (a @ k)"
  shows "visit (Call i l f a k) s = Some s"
proof -
  let ?c = "Call i l f a k"
  have rc: "record_call ?c s = Some s"
    using known sig kd by (auto simp: record_call_def)
  have hr: "handle_release ?c s = s" using sig kd by (rule handle_release_acquisition)
  from q have qa: "list_all (quiet (scope_stack s)) a" "list_all (quiet (scope_stack s)) k"
    by simp_all
  show ?thesis
    using rc hr q(1) qa visit_quiet_all(1)[of s f] visit_quiet_all(2)[of s] by simp
qed

lemma visit_fresh_acquisition:
  assumes fresh: "i \<notin> assigned_calls s" "i \<notin> safe_calls s"
    and sig: "call_signature (scope_stack s) (Call i l f a k) = Some sig"
    and kd: "TARGET_SIGS sig = Some kd"
    and q: "quiet (scope_stack s) f" "list_all (quiet (scope_stack s)) (a @ k)"
  shows "\<exists>s1. visit (Call i l f a k) s = Some s1 \<and>
     records s1 = records s @ [\<lparr>name = None, kind = kd, lineno = l, released = False\<rparr>] \<and>
     scope_stack s1 = scope_stack s"
proof -
  let ?c = "Call i l f a k"
  let ?s1 = "s\<lparr>records := records s @ [\<lparr>name = None, kind = kd, lineno = l, released = False\<rparr>]\<rparr>"
  have rc: "record_call ?c s = Some ?s1"
    using fresh sig kd by (simp add: record_call_def add_record_def)
  have sig1: "call_signature (scope_stack ?s1) ?c = Some sig" using sig by simp
  have hr: "handle_release ?c ?s1 = ?s1" using sig1 kd by (rule handle_release_acquisition)
  from q have q1: "quiet (scope_stack ?s1) f" "list_all (quiet (scope_stack ?s1)) a"
    "list_all (quiet (scope_stack ?s1)) k"
    by simp_all
  have "visit ?c s = Some ?s1"
    using rc hr q1 visit_quiet_all(1)[of ?s1 f] visit_quiet_all(2)[of ?s1] by simp
  then show ?thesis by simp
qed

lemma visit_assign_targets:
  assumes ne: "scope_stack s \<noteq> []"
    and sig: "call_signature (scope_stack s) (Call i l f a k) = Some sig"
    and kd: "TARGET_SIGS sig = Some kd"
    and q: "quiet (scope_stack s) f" "list_all (quiet (scope_stack s)) (a @ k)"
      "list_all (quiet (scope_stack s)) targets"
    and nms: "nms = (let names = concat (map collect_names targets)
                     in if names = [] then [None] else map Some names)"
  shows "\<exists>s1. visit (Assign targets (Call i l f a k)) s = Some s1 \<and>
     records s1 = records s @
       map (\<lambda>nm. \<lparr>name = nm, kind = kd, lineno = l, released = False\<rparr>) nms \<and>
     scope_stack s1 \<noteq> [] \<and> map aliases (scope_stack s1) = map aliases (scope_stack s)"
proof -
  let ?c = "Call i l f a k"
  let ?s0 = "s\<lparr>assigned_calls := insert i (assigned_calls s)\<rparr>"
  let ?names = "concat (map collect_names targets)"
  have ne0: "scope_stack ?s0 \<noteq> []" using ne by simp
  have ha_eq: "handle_assignment targets ?c s =
      (if ?names = [] then add_record None kd l ?s0 else add_records ?names kd l ?s0)"
    using sig kd TARGET_SIGS_kind_nonempty[OF kd]
    by (simp add: handle_assignment_def call_signature_from_expr_def Let_def
        del: concat_eq_Nil_conv)
  have "\<exists>s1. handle_assignment targets ?c s = Some s1 \<and>
     records s1 = records s @
       map (\<lambda>nm. \<lparr>name = nm, kind = kd, lineno = l, released = False\<rparr>) nms \<and>
     assigned_calls s1 = insert i (assigned_calls s) \<and>
     scope_stack s1 \<noteq> [] \<and> map aliases (scope_stack s1) = map aliases (scope_stack s)"
  proof (cases "?names = []")
    case True
    from add_record_frame[OF ne0, of None kd l] obtain s1 where
      1: "add_record None kd l ?s0 = Some s1"
      "records s1 = records ?s0 @ [\<lparr>name = None, kind = kd, lineno = l, released = False\<rparr>]"
      "assigned_calls s1 = assigned_calls ?s0"
      "scope_stack s1 \<noteq> []" "map aliases (scope_stack s1) = map aliases (scope_stack ?s0)"
      by blast
    have "handle_assignment targets ?c s = Some s1"
      unfolding ha_eq using True 1(1) by (simp del: concat_eq_Nil_conv)
    moreover have "nms = [None]" using True nms by (simp add: Let_def del: concat_eq_Nil_conv)
    ultimately show ?thesis using 1 by simp
  next
    case False
    from add_records_frame[OF ne0, of ?names kd l] obtain s1 where
      1: "add_records ?names kd l ?s0 = Some s1"
      "records s1 = records ?s0 @
         map (\<lambda>x. \<lparr>name = Some x, kind = kd, lineno = l, released = False\<rparr>) ?names"
      "assigned_calls s1 = assigned_calls ?s0"
      "scope_stack s1 \<noteq> []" "map aliases (scope_stack s1) = map aliases (scope_stack ?s0)"
      by blast
    have "handle_assignment targets ?c s = Some s1"
      unfolding ha_eq using False 1(1) by (simp del: concat_eq_Nil_conv)
    moreover have "nms = map Some ?names" using False nms by (simp add: Let_def del: concat_eq_Nil_conv)
    then have "map (\<lambda>nm. \<lparr>name = nm, kind = kd, lineno = l, released = False\<rparr>) nms =
        map (\<lambda>x. \<lparr>name = Some x, kind = kd, lineno = l, released = False\<rparr>) ?names"
      by (simp add: o_def)
    ultimately show ?thesis using 1 by simp
  qed
  then obtain s1 where ha: "handle_assignment targets ?c s = Some s1"
    and r: "records s1 = records s @
       map (\<lambda>nm. \<lparr>name = nm, kind = kd, lineno = l, released = False\<rparr>) nms"
    and asg: "assigned_calls s1 = insert i (assigned_calls s)"
    and ne1: "scope_stack s1 \<noteq> []"
    and ma: "map aliases (scope_stack s1) = map aliases (scope_stack s)"
    by blast
  have sig1: "call_signature (scope_stack s1) ?c = Some sig"
    using call_signature_aliases[OF ma] sig by simp
  have q1: "quiet (scope_stack s1) f" "list_all (quiet (scope_stack s1)) (a @ k)"
    "list_all (quiet (scope_stack s1)) targets"
    using q quiet_aliases[OF ma] by (simp_all add: list_all_iff)
  have vt: "visit_list targets s1 = Some s1" using q1(3) visit_quiet_all(2)[of s1 targets] by simp
  have vc: "visit ?c s1 = Some s1"
    by (rule visit_known_acquisition[OF _ sig1 kd q1(1,2)]) (simp add: asg)
  have "visit (Assign targets ?c) s = Some s1" using ha vt vc by simp
  with r ne1 ma show ?thesis by blast
qed

lemma report_append:
  assumes "records s1 = records s @ news" "\<forall>r\<in>set news. \<not> released r"
  shows "mset (report path s1) = mset (report path s) + mset (map (format_issue path) news)"
proof -
  have "filter_mset (\<lambda>r. \<not> released r) (mset news) = mset news"
    using assms(2) by (simp add: filter_mset_eq_conv)
  then show ?thesis by (simp add: mset_report assms(1))
qed

lemma later_length: "later s t \<Longrightarrow> length (records s) \<le> length (records t)"
  unfolding later_def marks_def by auto

lemma later_unreleased:
  assumes "later s t" "j < length (records s)" "\<not> released (records t ! j)"
  shows "records t ! j = records s ! j"
proof -
  from assms(1) obtain xs ys where r: "records t = xs @ ys" and m: "marks UNIV (records s) xs"
    unfolding later_def by blast
  from m have l: "length xs = length (records s)" by (simp add: marks_def)
  with assms(2) r have e: "records t ! j = xs ! j" by (simp add: nth_append)
  from m assms(2) have "xs ! j = records s ! j \<or> xs ! j = (records s ! j)\<lparr>released := True\<rparr>"
    unfolding marks_def by blast
  with assms(3) e show ?thesis by auto
qed

lemma report_split_at:
  assumes "j < length (records t)"
  shows "mset (report path t) =
     (if released (records t ! j) then {#} else {#format_issue path (records t ! j)#}) +
     image_mset (format_issue path)
       (filter_mset (\<lambda>r. \<not> released r) (mset (take j (records t) @ drop (Suc j) (records t))))"
proof -
  have "records t = take j (records t) @ records t ! j # drop (Suc j) (records t)"
    using assms by (rule id_take_nth_drop)
  then have "mset (records t) =
      add_mset (records t ! j) (mset (take j (records t) @ drop (Suc j) (records t)))"
    by (metis mset.simps(2) mset_append union_mset_add_mset_right)
  then show ?thesis unfolding mset_report by simp
qed


subsection \<open>Statements whose acquisitions are all released\<close>

















subsection \<open>Evaluating the analyzer on a concrete tree\<close>

lemmas analyzer_defs =
  new_Analyzer_def new_Scope_def push_scope_def pop_scope_def handle_assignment_def
  call_signature_from_expr_def lookup_alias_def TARGET_SIGS_def add_record_def
  update_current_def record_call_def handle_release_def release_by_method_def release_task_args_def
  mark_chained_def method_kind_def
  release_methods_def RELEASE_METHODS_def mark_released_def TASK_RELEASE_SIGS_def py_or_def
  truthy_def await_release_def mark_context_safe_def Let_def

lemmas report_defs =
  report_def sort_key_of_def name_or_empty_def format_issue_def format_message_def
  str_nat.simps digit_char_def py_or_def

section \<open>The claims\<close>

text \<open>
  C9. Throughout the traversal of any syntax tree the scope stack is non-empty with a
  root (module) scope always present; every scope pushed on entering a function-like
  body is popped on exiting it, so after the full traversal exactly the root scope
  remains, and a nested scope's alias bindings and name-to-record tables never appear in
  any enclosing scope's tables.

  Visiting any node from a state with a non-empty stack raises no \<^verbatim>\<open>IndexError\<close>
  (every read of the current scope and every pop found a scope), leaves the stack
  non-empty with the same depth, and leaves every scope below the current one as it
  was. After a function definition (plain or async) the whole stack is the one before
  it: the scope pushed was popped and nothing of it reached an enclosing table. A full
  traversal from \<^verbatim>\<open>Analyzer(tree)\<close> ends with exactly one scope.
\<close>

theorem scope_stack_discipline:
  "(scope_stack s \<noteq> [] \<longrightarrow>
      (\<exists>s'. visit n s = Some s' \<and> scope_stack s' \<noteq> [] \<and>
            length (scope_stack s') = length (scope_stack s) \<and>
            butlast (scope_stack s') = butlast (scope_stack s))) \<and>
   (scope_stack s \<noteq> [] \<longrightarrow>
      (\<exists>s'. visit (FunctionDef body) s = Some s' \<and> scope_stack s' = scope_stack s) \<and>
      (\<exists>s'. visit (AsyncFunctionDef body) s = Some s' \<and> scope_stack s' = scope_stack s)) \<and>
   (\<exists>s'. visit tree new_Analyzer = Some s' \<and> length (scope_stack s') = 1)"
proof (intro conjI impI)
  assume ne: "scope_stack s \<noteq> []"
  from visit_ok_all(1)[of s n] ne obtain s' where
    v: "visit n s = Some s'" and so: "same_outer s s'" by blast
  from so ne have "length (scope_stack s') = length (scope_stack s)"
    by (rule same_outer_length)
  with v so show "\<exists>s'. visit n s = Some s' \<and> scope_stack s' \<noteq> [] \<and>
            length (scope_stack s') = length (scope_stack s) \<and>
            butlast (scope_stack s') = butlast (scope_stack s)"
    by (simp add: same_outer_def)
next
  assume ne: "scope_stack s \<noteq> []"
  from visit_ok_all(2)[of "push_scope s" body] obtain s1 where
    1: "visit_list body (push_scope s) = Some s1" "same_outer (push_scope s) s1" by auto
  from pop_push_ok[OF 1(2)] 1(1)
  show "\<exists>s'. visit (FunctionDef body) s = Some s' \<and> scope_stack s' = scope_stack s"
    by auto
  from pop_push_ok[OF 1(2)] 1(1)
  show "\<exists>s'. visit (AsyncFunctionDef body) s = Some s' \<and> scope_stack s' = scope_stack s"
    by auto
next
  have ne: "scope_stack new_Analyzer \<noteq> []" by (simp add: new_Analyzer_def)
  from visit_ok_all(1)[of new_Analyzer tree] ne obtain s' where
    v: "visit tree new_Analyzer = Some s'" and so: "same_outer new_Analyzer s'" by blast
  from so have "butlast (scope_stack s') = []" "scope_stack s' \<noteq> []"
    by (simp_all add: same_outer_def new_Analyzer_def)
  then have "length (scope_stack s') = 1"
    by (cases "scope_stack s'") (auto split: if_splits)
  with v show "\<exists>s'. visit tree new_Analyzer = Some s' \<and> length (scope_stack s') = 1"
    by simp
qed

text \<open>The theorem at the tree of \<^verbatim>\<open>def outer(): fh = open(p); (async def inner():
  fh.close())\<close>, from the fresh analyzer.\<close>

theorem scope_stack_discipline_witness:
  "scope_stack new_Analyzer \<noteq> [] \<and>
   (\<exists>s'. visit (Module [FunctionDef [Assign [Name ''fh''] (Call 1 5 (Name ''open'') [Other []] []),
              AsyncFunctionDef [Other [Call 2 8 (Attribute (Name ''fh'') ''close'') [] []]]]])
            new_Analyzer = Some s' \<and>
         scope_stack s' \<noteq> [] \<and> length (scope_stack s') = length (scope_stack new_Analyzer) \<and>
         butlast (scope_stack s') = butlast (scope_stack new_Analyzer))"
proof -
  have ne: "scope_stack new_Analyzer \<noteq> []" by (simp add: new_Analyzer_def)
  with scope_stack_discipline[of new_Analyzer
      "Module [FunctionDef [Assign [Name ''fh''] (Call 1 5 (Name ''open'') [Other []] []),
              AsyncFunctionDef [Other [Call 2 8 (Attribute (Name ''fh'') ''close'') [] []]]]]"]
  show ?thesis by blast
qed

text \<open>
  C10. A release call by bound name whose method is \<^verbatim>\<open>close\<close> is attributed only to
  records of kind \<^verbatim>\<open>file_handle\<close>: method-to-kind resolution iterates the kinds in
  the fixed order file\_handle, socket\_handle, popen\_handle, asyncio\_task and stops at
  the first kind whose release-method set contains the method, so a socket\_handle
  record bound to a name is never marked released by a \<^verbatim>\<open>name.close()\<close> call; by
  name it can be released only via \<^verbatim>\<open>shutdown()\<close>.

  The resolution of \<^verbatim>\<open>close\<close> is \<^verbatim>\<open>file_handle\<close>; \<^verbatim>\<open>_handle_release\<close> of a call
  \<^verbatim>\<open>recv.close(...)\<close> leaves every record of another kind as it was, whatever the
  receiver and the state; and if \<^verbatim>\<open>_handle_release\<close> of any call changes a
  \<^verbatim>\<open>socket_handle\<close> record, the call is \<^verbatim>\<open>recv.shutdown(...)\<close>.
\<close>

theorem close_by_name_is_file_handle_only:
  "method_kind ''close'' = Some ''file_handle'' \<and>
   (\<forall>j<length (records s). kind (records s ! j) \<noteq> ''file_handle'' \<longrightarrow>
      records (handle_release (Call i l (Attribute recv ''close'') a k) s) ! j = records s ! j) \<and>
   (\<forall>j<length (records s). kind (records s ! j) = ''socket_handle'' \<longrightarrow>
      records (handle_release (Call i l func a k) s) ! j \<noteq> records s ! j \<longrightarrow>
      (\<exists>recv'. func = Attribute recv' ''shutdown''))"
proof (intro conjI allI impI)
  show "method_kind ''close'' = Some ''file_handle''"
    by (simp add: method_kind_simps)
next
  fix j assume j: "j < length (records s)" and nf: "kind (records s ! j) \<noteq> ''file_handle''"
  let ?c = "Call i l (Attribute recv ''close'') a k"
  have "handle_release ?c s =
      mark_released (dotted_name recv) (Some ''file_handle'') (mark_chained recv ''close'' s)"
    using close_not_task_sig[of "scope_stack (mark_released (dotted_name recv) (Some ''file_handle'') (mark_chained recv ''close'' s))" i l recv a k]
    by (auto simp: handle_release_Call release_by_method_Attribute release_task_args_def
        method_kind_simps split: option.splits)
  moreover have "release_step {''file_handle''} s
      (mark_released (dotted_name recv) (Some ''file_handle'') (mark_chained recv ''close'' s))"
    by (rule release_step_trans[OF mark_chained_step mark_released_step])
  ultimately have "marks {''file_handle''} (records s) (records (handle_release ?c s))"
    by (simp add: release_step_def)
  from marks_nth[OF this j] nf
  show "records (handle_release ?c s) ! j = records s ! j" by simp
next
  fix j assume j: "j < length (records s)" and sk: "kind (records s ! j) = ''socket_handle''"
    and ch: "records (handle_release (Call i l func a k) s) ! j \<noteq> records s ! j"
  show "\<exists>recv'. func = Attribute recv' ''shutdown''"
  proof (cases "\<exists>v attr. func = Attribute v attr")
    case False
    then have "marks {''asyncio_task''} (records s) (records (handle_release (Call i l func a k) s))"
      using handle_release_other_step[of func s i l a k] by (simp add: release_step_def)
    from marks_nth[OF this j] sk ch show ?thesis by simp
  next
    case True
    then obtain v attr where f: "func = Attribute v attr" by blast
    let ?K = "(case method_kind attr of None \<Rightarrow> {} | Some kd \<Rightarrow> {kd}) \<union> {''asyncio_task''}"
    have "marks ?K (records s) (records (handle_release (Call i l func a k) s))"
      using handle_release_attr_step[of attr s i l v a k] f by (simp add: release_step_def)
    from marks_nth[OF this j] sk ch have "''socket_handle'' \<in> ?K" by auto
    then have "method_kind attr = Some ''socket_handle''"
      by (auto split: option.splits)
    from method_kind_cases[OF this] f show ?thesis by simp
  qed
qed

text \<open>The theorem at the state after \<^verbatim>\<open>import socket; s = socket.socket()\<close>: the
  record of \<^verbatim>\<open>s\<close> is not a file handle, and \<^verbatim>\<open>s.close()\<close> leaves it unreleased.\<close>

theorem close_by_name_is_file_handle_only_witness:
  "(0::nat) < length (records
      \<lparr>records = [\<lparr>name = Some ''s'', kind = ''socket_handle'', lineno = 2, released = False\<rparr>],
       safe_calls = {}, assigned_calls = {1},
       scope_stack = [\<lparr>aliases = [''socket'' \<mapsto> (Some ''socket'', None)],
                       by_name = [''s'' \<mapsto> [0]]\<rparr>]\<rparr>) \<and>
   kind (records
      \<lparr>records = [\<lparr>name = Some ''s'', kind = ''socket_handle'', lineno = 2, released = False\<rparr>],
       safe_calls = {}, assigned_calls = {1},
       scope_stack = [\<lparr>aliases = [''socket'' \<mapsto> (Some ''socket'', None)],
                       by_name = [''s'' \<mapsto> [0]]\<rparr>]\<rparr> ! 0) \<noteq> ''file_handle'' \<and>
   \<not> released (records (handle_release (Call 2 3 (Attribute (Name ''s'') ''close'') [] [])
      \<lparr>records = [\<lparr>name = Some ''s'', kind = ''socket_handle'', lineno = 2, released = False\<rparr>],
       safe_calls = {}, assigned_calls = {1},
       scope_stack = [\<lparr>aliases = [''socket'' \<mapsto> (Some ''socket'', None)],
                       by_name = [''s'' \<mapsto> [0]]\<rparr>]\<rparr>) ! 0)"
  using close_by_name_is_file_handle_only[of
      "\<lparr>records = [\<lparr>name = Some ''s'', kind = ''socket_handle'', lineno = 2, released = False\<rparr>],
       safe_calls = {}, assigned_calls = {1},
       scope_stack = [\<lparr>aliases = [''socket'' \<mapsto> (Some ''socket'', None)],
                       by_name = [''s'' \<mapsto> [0]]\<rparr>]\<rparr>" 2 3 "Name ''s''" "[]" "[]"]
  by simp

text \<open>
  C5. For every call expression of the form \<^verbatim>\<open>A(...).m(...)\<close> where the nested call
  \<^verbatim>\<open>A(...)\<close> canonicalizes to an acquisition signature of some kind K and \<^verbatim>\<open>m\<close> is a
  release-method name of K, the nested acquisition call is marked safe directly (without
  consulting any name table) and produces zero diagnostics.

  Visiting such an expression in any state is visiting the sub-expressions (the callee
  and arguments of the nested call, then the arguments of the outer call) from the state
  in which the nested call was added to \<^verbatim>\<open>safe_calls\<close>: neither call node creates a
  record or touches a scope or a record. Where the sub-expressions are \<open>quiet\<close>, the
  state after the expression is the state before it with the nested call marked safe,
  and the report is the report before it.
\<close>

theorem chained_release_is_safe:
  assumes "call_signature (scope_stack s) (Call i' l' f' a' k') = Some sig"
    and "TARGET_SIGS sig = Some kd"
    and "m \<in> set (release_methods kd)"
  shows "visit (Call i l (Attribute (Call i' l' f' a' k') m) a k) s =
       (visit f' (s\<lparr>safe_calls := insert i' (safe_calls s)\<rparr>) \<bind> (\<lambda>s1.
        visit_list a' s1 \<bind> (\<lambda>s2.
        visit_list k' s2 \<bind> (\<lambda>s3.
        visit_list a s3 \<bind> (\<lambda>s4.
        visit_list k s4))))) \<and>
     (quiet (scope_stack s) f' \<and> list_all (quiet (scope_stack s)) (a' @ k' @ a @ k) \<longrightarrow>
      (\<exists>s'. visit (Call i l (Attribute (Call i' l' f' a' k') m) a k) s = Some s' \<and>
         s' = s\<lparr>safe_calls := insert i' (safe_calls s)\<rparr> \<and>
         records s' = records s \<and> scope_stack s' = scope_stack s \<and>
         report path s' = report path s))"
proof (intro conjI impI)
  let ?s1 = "s\<lparr>safe_calls := insert i' (safe_calls s)\<rparr>"
  show eq: "visit (Call i l (Attribute (Call i' l' f' a' k') m) a k) s =
     visit f' ?s1 \<bind> (\<lambda>s1.
     visit_list a' s1 \<bind> (\<lambda>s2.
     visit_list k' s2 \<bind> (\<lambda>s3.
     visit_list a s3 \<bind> (\<lambda>s4.
     visit_list k s4))))"
    using assms by (rule chained_visit)
  assume q: "quiet (scope_stack s) f' \<and> list_all (quiet (scope_stack s)) (a' @ k' @ a @ k)"
  have st: "scope_stack ?s1 = scope_stack s" by simp
  from q visit_quiet_all(1)[of ?s1 f'] have 1: "visit f' ?s1 = Some ?s1" by simp
  from q visit_quiet_all(2)[of ?s1] have 2: "visit_list a' ?s1 = Some ?s1"
    "visit_list k' ?s1 = Some ?s1" "visit_list a ?s1 = Some ?s1" "visit_list k ?s1 = Some ?s1"
    by simp_all
  show "\<exists>s'. visit (Call i l (Attribute (Call i' l' f' a' k') m) a k) s = Some s' \<and>
       s' = s\<lparr>safe_calls := insert i' (safe_calls s)\<rparr> \<and>
       records s' = records s \<and> scope_stack s' = scope_stack s \<and>
       report path s' = report path s"
    unfolding eq by (simp add: 1 2)
qed

text \<open>The theorem at \<^verbatim>\<open>open(p).close()\<close>, from the fresh analyzer: no diagnostic.\<close>

theorem chained_release_is_safe_witness:
  "call_signature (scope_stack new_Analyzer) (Call 2 7 (Name ''open'') [Other []] [])
     = Some (None, ''open'') \<and>
   TARGET_SIGS (None, ''open'') = Some ''file_handle'' \<and>
   ''close'' \<in> set (release_methods ''file_handle'') \<and>
   quiet (scope_stack new_Analyzer) (Name ''open'') \<and>
   list_all (quiet (scope_stack new_Analyzer)) ([Other []] @ [] @ [] @ []) \<and>
   (\<exists>s'. visit (Call 1 7 (Attribute (Call 2 7 (Name ''open'') [Other []] []) ''close'') [] [])
            new_Analyzer = Some s' \<and>
         report ''f.py'' s' = [])"
proof -
  have h1: "call_signature (scope_stack new_Analyzer) (Call 2 7 (Name ''open'') [Other []] [])
     = Some (None, ''open'')"
    by (simp add: new_Analyzer_def new_Scope_def lookup_alias_def)
  have h2: "TARGET_SIGS (None, ''open'') = Some ''file_handle''"
    by (simp add: TARGET_SIGS_def)
  have h3: "''close'' \<in> set (release_methods ''file_handle'')"
    by (simp add: release_methods_def RELEASE_METHODS_def)
  have q: "quiet (scope_stack new_Analyzer) (Name ''open'') \<and>
     list_all (quiet (scope_stack new_Analyzer)) ([Other []] @ [] @ [] @ [])"
    by simp
  have r: "report ''f.py'' new_Analyzer = []"
    by (simp add: report_def new_Analyzer_def)
  from chained_release_is_safe[OF h1 h2 h3, of 1 7 "[]" "[]" "''f.py''"] q r
  have "\<exists>s'. visit (Call 1 7 (Attribute (Call 2 7 (Name ''open'') [Other []] []) ''close'') [] [])
            new_Analyzer = Some s' \<and> report ''f.py'' s' = []"
    by auto
  with h1 h2 h3 q show ?thesis by blast
qed

text \<open>
  Claim C2, as stated: for each of the four resource kinds, an acquisition expression
  whose record is never marked released produces exactly one diagnostic line, naming
  that kind. An assignment records the acquisition once for every name that its targets
  bind, so one acquisition expression can have several records: in
  \<^verbatim>\<open>import socket\<close>, \<^verbatim>\<open>a, b = socket.socketpair()\<close> the one acquisition, never
  released, produces two lines.
\<close>

theorem tuple_assignment_gives_two_lines:
  "\<exists>s'. visit (Module [Import [(''socket'', None)],
           Assign [Tuple [Name ''a'', Name ''b'']]
             (Call 1 2 (Attribute (Name ''socket'') ''socketpair'') [] [])]) new_Analyzer = Some s' \<and>
      report ''pair.py'' s' =
        [''pair.py:2'' @ [CHR 0x09] @ ''socket_handle'' @ [CHR 0x09]
           @ ''Socket a opened without close()'',
         ''pair.py:2'' @ [CHR 0x09] @ ''socket_handle'' @ [CHR 0x09]
           @ ''Socket b opened without close()'']"
  by (simp add: analyzer_defs report_defs)

text \<open>
  Claim C2, amended to one line for each record. Let \<open>c\<close> be an acquisition call of
  kind \<open>kd\<close> on line \<open>l\<close>, its sub-expressions and the assignment targets being
  \<open>quiet\<close>. Then \<open>kd\<close> is one of the four kinds, and from any state:
  \<^item> as an expression statement, \<open>c\<close> (not yet assigned or marked safe) adds exactly one
    record, unnamed and unreleased, and exactly one line to the report;
  \<^item> as the value of an assignment, \<open>c\<close> adds exactly one unreleased record for every
    name that the targets bind (one unnamed record when they bind none), and exactly one
    line to the report for each of these records;
  \<^item> each of these lines is \<^verbatim>\<open>path:l<TAB>kd<TAB>message\<close>, with the message of \<open>kd\<close>;
  \<^item> after any further traversal, from the state reached or a \<open>later\<close> one, a record
    that is still unreleased is unchanged and accounts for exactly one line of the
    report, and a released record for none: the report is that line, if any, together
    with the lines of the other unreleased records.
\<close>

theorem acquisition_one_line_per_record:
  assumes ne: "scope_stack s \<noteq> []"
    and sig: "call_signature (scope_stack s) (Call i l f a k) = Some sig"
    and kd: "TARGET_SIGS sig = Some kd"
    and q: "quiet (scope_stack s) f \<and> list_all (quiet (scope_stack s)) (a @ k @ targets)"
    and nms: "nms = (let names = concat (map collect_names targets)
                     in if names = [] then [None] else map Some names)"
  shows "kd \<in> {''file_handle'', ''socket_handle'', ''popen_handle'', ''asyncio_task''} \<and>
     (i \<notin> assigned_calls s \<and> i \<notin> safe_calls s \<longrightarrow>
        (\<exists>s1. visit (Other [Call i l f a k]) s = Some s1 \<and>
           records s1 = records s @ [\<lparr>name = None, kind = kd, lineno = l, released = False\<rparr>] \<and>
           mset (report path s1) = mset (report path s) +
             {#path @ '':'' @ str_nat l @ [CHR 0x09] @ kd @ [CHR 0x09] @ format_message kd kd#})) \<and>
     (\<exists>s1. visit (Assign targets (Call i l f a k)) s = Some s1 \<and>
        records s1 = records s @
          map (\<lambda>nm. \<lparr>name = nm, kind = kd, lineno = l, released = False\<rparr>) nms \<and>
        mset (report path s1) = mset (report path s) +
          mset (map (\<lambda>nm. path @ '':'' @ str_nat l @ [CHR 0x09] @ kd @ [CHR 0x09]
                       @ format_message kd (py_or nm kd)) nms)) \<and>
     (\<forall>s1 u n t j. later s1 u \<and> visit n u = Some t \<and> j < length (records s1) \<longrightarrow>
        j < length (records t) \<and>
        (\<not> released (records t ! j) \<longrightarrow> records t ! j = records s1 ! j) \<and>
        mset (report path t) =
          (if released (records t ! j) then {#} else {#format_issue path (records s1 ! j)#}) +
          image_mset (format_issue path)
            (filter_mset (\<lambda>r. \<not> released r)
               (mset (take j (records t) @ drop (Suc j) (records t)))))"
proof (intro conjI impI allI)
  let ?c = "Call i l f a k"
  from q have qf: "quiet (scope_stack s) f" and qa: "list_all (quiet (scope_stack s)) (a @ k)"
    and qt: "list_all (quiet (scope_stack s)) targets" by simp_all
  show "kd \<in> {''file_handle'', ''socket_handle'', ''popen_handle'', ''asyncio_task''}"
    using TARGET_SIGS_kind[OF kd] by simp
  {
    assume "i \<notin> assigned_calls s \<and> i \<notin> safe_calls s"
    then have fresh: "i \<notin> assigned_calls s" "i \<notin> safe_calls s" by simp_all
    from visit_fresh_acquisition[OF fresh sig kd qf qa] obtain s1 where
      v: "visit ?c s = Some s1"
      and r: "records s1 = records s @ [\<lparr>name = None, kind = kd, lineno = l, released = False\<rparr>]"
      by blast
    have "mset (report path s1) = mset (report path s) +
        mset (map (format_issue path) [\<lparr>name = None, kind = kd, lineno = l, released = False\<rparr>])"
      by (rule report_append[OF r]) simp
    then have "mset (report path s1) = mset (report path s) +
        {#path @ '':'' @ str_nat l @ [CHR 0x09] @ kd @ [CHR 0x09] @ format_message kd kd#}"
      by (simp add: format_issue_def py_or_def truthy_def)
    with v r show "\<exists>s1. visit (Other [?c]) s = Some s1 \<and>
           records s1 = records s @ [\<lparr>name = None, kind = kd, lineno = l, released = False\<rparr>] \<and>
           mset (report path s1) = mset (report path s) +
             {#path @ '':'' @ str_nat l @ [CHR 0x09] @ kd @ [CHR 0x09] @ format_message kd kd#}"
      unfolding visit_Other_single by blast
  }
  {
    let ?news = "map (\<lambda>nm. \<lparr>name = nm, kind = kd, lineno = l, released = False\<rparr>) nms"
    from visit_assign_targets[OF ne sig kd qf qa qt nms] obtain s1 where
      v: "visit (Assign targets ?c) s = Some s1" and r: "records s1 = records s @ ?news"
      by blast
    have rep: "mset (report path s1) =
        mset (report path s) + mset (map (format_issue path) ?news)"
      by (rule report_append[OF r]) simp
    have eq: "map (format_issue path) ?news =
        map (\<lambda>nm. path @ '':'' @ str_nat l @ [CHR 0x09] @ kd @ [CHR 0x09]
                       @ format_message kd (py_or nm kd)) nms"
      by (simp add: format_issue_def o_def)
    from rep have "mset (report path s1) = mset (report path s) +
          mset (map (\<lambda>nm. path @ '':'' @ str_nat l @ [CHR 0x09] @ kd @ [CHR 0x09]
                       @ format_message kd (py_or nm kd)) nms)"
      by (simp only: eq)
    with v r show "\<exists>s1. visit (Assign targets ?c) s = Some s1 \<and>
        records s1 = records s @ ?news \<and>
        mset (report path s1) = mset (report path s) +
          mset (map (\<lambda>nm. path @ '':'' @ str_nat l @ [CHR 0x09] @ kd @ [CHR 0x09]
                       @ format_message kd (py_or nm kd)) nms)"
      by blast
  }
  fix s1 u t :: Analyzer and n j
  assume h0: "later s1 u \<and> visit n u = Some t \<and> j < length (records s1)"
  then have "later u t" using visit_later_all(1)[of n u] by blast
  with h0 have h: "later s1 t \<and> j < length (records s1)" by (blast intro: later_trans)
  with later_length[of s1 t] show jt: "j < length (records t)" by simp
  {
    assume "\<not> released (records t ! j)"
    with h show "records t ! j = records s1 ! j" by (blast intro: later_unreleased)
  }
  then show "mset (report path t) =
          (if released (records t ! j) then {#} else {#format_issue path (records s1 ! j)#}) +
          image_mset (format_issue path)
            (filter_mset (\<lambda>r. \<not> released r)
               (mset (take j (records t) @ drop (Suc j) (records t))))"
    using report_split_at[OF jt, of path] by (cases "released (records t ! j)") simp_all
qed

text \<open>The theorem after \<^verbatim>\<open>import socket\<close>, at the statement
  \<^verbatim>\<open>socket.socketpair()\<close>, one record and one line, and at
  \<^verbatim>\<open>a, b = socket.socketpair()\<close>, two records and two lines.\<close>

theorem acquisition_one_line_per_record_witness:
  "scope_stack
     \<lparr>records = [], safe_calls = {}, assigned_calls = {},
      scope_stack = [\<lparr>aliases = [''socket'' \<mapsto> (Some ''socket'', None)],
                      by_name = Map.empty\<rparr>]\<rparr> \<noteq> [] \<and>
   call_signature
     (scope_stack
        \<lparr>records = [], safe_calls = {}, assigned_calls = {},
         scope_stack = [\<lparr>aliases = [''socket'' \<mapsto> (Some ''socket'', None)],
                         by_name = Map.empty\<rparr>]\<rparr>)
     (Call 1 2 (Attribute (Name ''socket'') ''socketpair'') [] [])
       = Some (Some ''socket'', ''socketpair'') \<and>
   TARGET_SIGS (Some ''socket'', ''socketpair'') = Some ''socket_handle'' \<and>
   [Some ''a'', Some ''b''] =
     (let names = concat (map collect_names [Tuple [Name ''a'', Name ''b'']])
      in if names = [] then [None] else map Some names) \<and>
   (\<exists>s1. visit (Other [Call 1 2 (Attribute (Name ''socket'') ''socketpair'') [] []])
        \<lparr>records = [], safe_calls = {}, assigned_calls = {},
         scope_stack = [\<lparr>aliases = [''socket'' \<mapsto> (Some ''socket'', None)],
                         by_name = Map.empty\<rparr>]\<rparr> = Some s1 \<and>
      records s1 = [\<lparr>name = None, kind = ''socket_handle'', lineno = 2, released = False\<rparr>] \<and>
      mset (report ''pair.py'' s1) =
        {#''pair.py:2'' @ [CHR 0x09] @ ''socket_handle'' @ [CHR 0x09]
            @ ''Socket socket_handle opened without close()''#}) \<and>
   (\<exists>s1. visit (Assign [Tuple [Name ''a'', Name ''b'']]
                  (Call 1 2 (Attribute (Name ''socket'') ''socketpair'') [] []))
        \<lparr>records = [], safe_calls = {}, assigned_calls = {},
         scope_stack = [\<lparr>aliases = [''socket'' \<mapsto> (Some ''socket'', None)],
                         by_name = Map.empty\<rparr>]\<rparr> = Some s1 \<and>
      records s1 =
        [\<lparr>name = Some ''a'', kind = ''socket_handle'', lineno = 2, released = False\<rparr>,
         \<lparr>name = Some ''b'', kind = ''socket_handle'', lineno = 2, released = False\<rparr>] \<and>
      mset (report ''pair.py'' s1) =
        {#''pair.py:2'' @ [CHR 0x09] @ ''socket_handle'' @ [CHR 0x09]
            @ ''Socket a opened without close()'',
          ''pair.py:2'' @ [CHR 0x09] @ ''socket_handle'' @ [CHR 0x09]
            @ ''Socket b opened without close()''#})"
proof -
  let ?s = "\<lparr>records = [], safe_calls = {}, assigned_calls = {},
      scope_stack = [\<lparr>aliases = [''socket'' \<mapsto> (Some ''socket'', None)],
                      by_name = Map.empty\<rparr>]\<rparr>"
  let ?c = "Call 1 2 (Attribute (Name ''socket'') ''socketpair'') [] []"
  let ?t = "[Tuple [Name ''a'', Name ''b'']]"
  have h1: "scope_stack ?s \<noteq> []" by simp
  have h2: "call_signature (scope_stack ?s) ?c = Some (Some ''socket'', ''socketpair'')"
    by (simp add: lookup_alias_def py_or_def)
  have h3: "TARGET_SIGS (Some ''socket'', ''socketpair'') = Some ''socket_handle''"
    by (simp add: TARGET_SIGS_def)
  have h4: "quiet (scope_stack ?s) (Attribute (Name ''socket'') ''socketpair'') \<and>
      list_all (quiet (scope_stack ?s)) ([] @ [] @ ?t)"
    by simp
  have h5: "[Some ''a'', Some ''b''] =
     (let names = concat (map collect_names ?t)
      in if names = [] then [None] else map Some names)"
    by simp
  have r0: "mset (report ''pair.py'' ?s) = {#}" by (simp add: report_def)
  have f1: "(1::nat) \<notin> assigned_calls ?s \<and> 1 \<notin> safe_calls ?s" by simp
  note one = acquisition_one_line_per_record[OF h1 h2 h3 h4 h5, of "''pair.py''"]
  from one f1 have a: "\<exists>s1. visit (Other [?c]) ?s = Some s1 \<and>
      records s1 = [\<lparr>name = None, kind = ''socket_handle'', lineno = 2, released = False\<rparr>] \<and>
      mset (report ''pair.py'' s1) =
        {#''pair.py:2'' @ [CHR 0x09] @ ''socket_handle'' @ [CHR 0x09]
            @ ''Socket socket_handle opened without close()''#}"
    by (simp add: r0 str_nat_digit digit_char_def format_message_def)
  from one have b: "\<exists>s1. visit (Assign ?t ?c) ?s = Some s1 \<and>
      records s1 =
        [\<lparr>name = Some ''a'', kind = ''socket_handle'', lineno = 2, released = False\<rparr>,
         \<lparr>name = Some ''b'', kind = ''socket_handle'', lineno = 2, released = False\<rparr>] \<and>
      mset (report ''pair.py'' s1) =
        {#''pair.py:2'' @ [CHR 0x09] @ ''socket_handle'' @ [CHR 0x09]
            @ ''Socket a opened without close()'',
          ''pair.py:2'' @ [CHR 0x09] @ ''socket_handle'' @ [CHR 0x09]
            @ ''Socket b opened without close()''#}"
    by (simp add: r0 str_nat_digit digit_char_def format_message_def py_or_def)
  from h1 h2 h3 h5 a b show ?thesis by blast
qed

text \<open>
  C3. If the same name is bound to two recognized acquisitions in sequence and then a
  single matching release call on that name follows, exactly one diagnostic is produced,
  and it carries the source line of the first (superseded) acquisition, not the second:
  release attribution scans records under a name from most recent to least recent and
  marks the first unreleased record of matching kind.

  In any state, the statements \<^verbatim>\<open>x = A1(...); x = A2(...); x.m(...)\<close>, with two
  acquisitions of one kind \<open>kd\<close> and a method \<open>m\<close> that resolves to \<open>kd\<close> (the
  sub-expressions being \<open>quiet\<close>), add exactly two records: the first acquisition's,
  unreleased, and the second's, released. The report afterwards is one line for the
  first acquisition, with its line number, on top of lines that were already in the
  report before; in a file with no earlier record it is that one line.
\<close>

theorem reassignment_lifo:
  assumes ne: "scope_stack s \<noteq> []"
    and sig1: "call_signature (scope_stack s) (Call i1 l1 f1 a1 k1) = Some sig1"
    and kd1: "TARGET_SIGS sig1 = Some kd"
    and sig2: "call_signature (scope_stack s) (Call i2 l2 f2 a2 k2) = Some sig2"
    and kd2: "TARGET_SIGS sig2 = Some kd"
    and mk: "method_kind m = Some kd"
    and x: "x \<noteq> []"
    and q: "quiet (scope_stack s) f1 \<and> quiet (scope_stack s) f2 \<and>
            list_all (quiet (scope_stack s)) (a1 @ k1 @ a2 @ k2 @ a3 @ k3)"
  shows "\<exists>s' M. visit_list [Assign [Name x] (Call i1 l1 f1 a1 k1),
                Assign [Name x] (Call i2 l2 f2 a2 k2),
                Other [Call i3 l3 (Attribute (Name x) m) a3 k3]] s = Some s' \<and>
     drop (length (records s)) (records s') =
       [\<lparr>name = Some x, kind = kd, lineno = l1, released = False\<rparr>,
        \<lparr>name = Some x, kind = kd, lineno = l2, released = True\<rparr>] \<and>
     mset (report path s') =
       M + {#format_issue path \<lparr>name = Some x, kind = kd, lineno = l1, released = False\<rparr>#} \<and>
     M \<subseteq># mset (report path s) \<and>
     (records s = [] \<longrightarrow>
        report path s' =
          [format_issue path \<lparr>name = Some x, kind = kd, lineno = l1, released = False\<rparr>])"
proof -
  let ?r1 = "\<lparr>name = Some x, kind = kd, lineno = l1, released = False\<rparr>"
  let ?r2 = "\<lparr>name = Some x, kind = kd, lineno = l2, released = False\<rparr>"
  let ?r2' = "\<lparr>name = Some x, kind = kd, lineno = l2, released = True\<rparr>"
  let ?rel = "Call i3 l3 (Attribute (Name x) m) a3 k3"
  from q have q1: "quiet (scope_stack s) f1" "list_all (quiet (scope_stack s)) (a1 @ k1)"
    and q2: "quiet (scope_stack s) f2" "list_all (quiet (scope_stack s)) (a2 @ k2)"
    and q3: "list_all (quiet (scope_stack s)) (a3 @ k3)" by simp_all
  from visit_assign_acquisition[OF ne sig1 kd1 x q1] obtain s1 es1 where
    v1: "visit (Assign [Name x] (Call i1 l1 f1 a1 k1)) s = Some s1"
    and r1: "records s1 = records s @ [?r1]"
    and ne1: "scope_stack s1 \<noteq> []"
    and ma1: "map aliases (scope_stack s1) = map aliases (scope_stack s)"
    by blast
  have sig2': "call_signature (scope_stack s1) (Call i2 l2 f2 a2 k2) = Some sig2"
    using sig2 call_signature_aliases[OF ma1] by simp
  have q2': "quiet (scope_stack s1) f2" "list_all (quiet (scope_stack s1)) (a2 @ k2)"
    using q2 quiet_aliases[OF ma1] by (simp_all add: list_all_iff)
  from visit_assign_acquisition[OF ne1 sig2' kd2 x q2'] obtain s2 es2 where
    v2: "visit (Assign [Name x] (Call i2 l2 f2 a2 k2)) s1 = Some s2"
    and r2: "records s2 = records s1 @ [?r2]"
    and ne2: "scope_stack s2 \<noteq> []"
    and ma2: "map aliases (scope_stack s2) = map aliases (scope_stack s1)"
    and bn: "by_name (last (scope_stack s2)) x = Some (es2 @ [length (records s1)])"
    by blast
  have q3': "list_all (quiet (scope_stack s2)) (a3 @ k3)"
    using q3 quiet_aliases[OF ma2] quiet_aliases[OF ma1] by (simp add: list_all_iff)
  let ?sm = "mark_released (Some x) (Some kd) s2"
  from visit_release_by_name[OF mk q3', of i3 l3 x] obtain s' where
    v3: "visit ?rel s2 = Some s'"
    and step: "release_step {''asyncio_task''} ?sm s'"
    and eq: "kd = ''asyncio_task'' \<longrightarrow> s' = ?sm"
    by blast
  have sm: "?sm = s2\<lparr>records := (records s2)[length (records s1) := (records s2 ! length (records s1))\<lparr>released := True\<rparr>]\<rparr>"
    by (rule mark_released_top[OF ne2 bn _ _ x]) (simp_all add: r2)
  have rsm: "records ?sm = records s @ [?r1, ?r2']"
    unfolding sm by (simp add: r2 r1 list_update_append nth_append)
  from released_after_release[OF step eq rsm] obtain xs' where
    rs': "records s' = xs' @ [?r1, ?r2']" and mx: "marks {''asyncio_task''} (records s) xs'"
    by auto
  from mx have len: "length xs' = length (records s)" by (simp add: marks_def)
  have v: "visit_list [Assign [Name x] (Call i1 l1 f1 a1 k1),
                Assign [Name x] (Call i2 l2 f2 a2 k2), Other [?rel]] s = Some s'"
    unfolding visit_list_Cons_Some[OF v1] visit_list_Cons_Some[OF v2] visit_list_single
      visit_Other_single by (rule v3)
  let ?M = "image_mset (format_issue path) (filter_mset (\<lambda>r. \<not> released r) (mset xs'))"
  have rep: "mset (report path s') = ?M + {#format_issue path ?r1#}"
    by (simp add: mset_report rs')
  have sub: "?M \<subseteq># mset (report path s)"
    unfolding mset_report by (rule image_mset_subseteq_mono) (rule marks_unreleased[OF mx])
  have dr: "drop (length (records s)) (records s') = [?r1, ?r2']"
    by (simp add: rs' len)
  have fresh: "report path s' = [format_issue path ?r1]" if "records s = []"
  proof -
    from that len have "xs' = []" by simp
    with rs' have "s' = s'\<lparr>records := [?r1, ?r2']\<rparr>" by simp
    then have "report path s' = report path (s'\<lparr>records := [?r1, ?r2']\<rparr>)" by simp
    also have "\<dots> = [format_issue path ?r1]" by (rule report_two) simp_all
    finally show ?thesis .
  qed
  from v dr rep sub fresh show ?thesis by blast
qed

text \<open>The theorem at \<^verbatim>\<open>fh = open(a); fh = open(b); fh.close()\<close> on lines 3 to 5 of
  a function body: one diagnostic, on line 3.\<close>

theorem reassignment_lifo_witness:
  "scope_stack (push_scope new_Analyzer) \<noteq> [] \<and>
   call_signature (scope_stack (push_scope new_Analyzer)) (Call 1 3 (Name ''open'') [Other []] [])
     = Some (None, ''open'') \<and>
   TARGET_SIGS (None, ''open'') = Some ''file_handle'' \<and>
   call_signature (scope_stack (push_scope new_Analyzer)) (Call 2 4 (Name ''open'') [Other []] [])
     = Some (None, ''open'') \<and>
   method_kind ''close'' = Some ''file_handle'' \<and>
   ''fh'' \<noteq> [] \<and>
   quiet (scope_stack (push_scope new_Analyzer)) (Name ''open'') \<and>
   list_all (quiet (scope_stack (push_scope new_Analyzer)))
     ([Other []] @ [] @ [Other []] @ [] @ [] @ []) \<and>
   records (push_scope new_Analyzer) = [] \<and>
   (\<exists>s'. visit_list [Assign [Name ''fh''] (Call 1 3 (Name ''open'') [Other []] []),
                Assign [Name ''fh''] (Call 2 4 (Name ''open'') [Other []] []),
                Other [Call 3 5 (Attribute (Name ''fh'') ''close'') [] []]]
            (push_scope new_Analyzer) = Some s' \<and>
         report ''reassign.py'' s' =
           [''reassign.py:3'' @ [CHR 0x09] @ ''file_handle'' @ [CHR 0x09] @
            ''File handle fh opened without context manager or close()''])"
proof -
  let ?s = "push_scope new_Analyzer"
  have h1: "scope_stack ?s \<noteq> []" by simp
  have h2: "call_signature (scope_stack ?s) (Call 1 3 (Name ''open'') [Other []] [])
     = Some (None, ''open'')"
    by (simp add: push_scope_def new_Analyzer_def new_Scope_def lookup_alias_def)
  have h3: "TARGET_SIGS (None, ''open'') = Some ''file_handle''"
    by (simp add: TARGET_SIGS_def)
  have h4: "call_signature (scope_stack ?s) (Call 2 4 (Name ''open'') [Other []] [])
     = Some (None, ''open'')"
    by (simp add: push_scope_def new_Analyzer_def new_Scope_def lookup_alias_def)
  have h5: "method_kind ''close'' = Some ''file_handle''"
    by (simp add: method_kind_simps)
  have h6: "''fh'' \<noteq> []" by simp
  have h7: "quiet (scope_stack ?s) (Name ''open'') \<and> quiet (scope_stack ?s) (Name ''open'') \<and>
     list_all (quiet (scope_stack ?s)) ([Other []] @ [] @ [Other []] @ [] @ [] @ [])"
    by simp
  have h8: "records ?s = []" by (simp add: push_scope_def new_Analyzer_def)
  have f: "format_issue ''reassign.py''
       \<lparr>name = Some ''fh'', kind = ''file_handle'', lineno = 3, released = False\<rparr> =
     ''reassign.py:3'' @ [CHR 0x09] @ ''file_handle'' @ [CHR 0x09] @
            ''File handle fh opened without context manager or close()''"
    by (simp add: format_issue_def format_message_def py_or_def str_nat_digit digit_char_def)
  from reassignment_lifo[OF h1 h2 h3 h4 h3 h5 h6 h7, of 3 5 "''reassign.py''"] h8
  have "\<exists>s'. visit_list [Assign [Name ''fh''] (Call 1 3 (Name ''open'') [Other []] []),
                Assign [Name ''fh''] (Call 2 4 (Name ''open'') [Other []] []),
                Other [Call 3 5 (Attribute (Name ''fh'') ''close'') [] []]] ?s = Some s' \<and>
         report ''reassign.py'' s' = [format_issue ''reassign.py''
           \<lparr>name = Some ''fh'', kind = ''file_handle'', lineno = 3, released = False\<rparr>]"
    by blast
  with h1 h2 h3 h4 h5 h6 h7 h8 show ?thesis unfolding f by blast
qed

text \<open>
  C6. An acquisition bound to a name in an outer function scope and later released by a
  matching release-method call on that name inside a nested function body produces zero
  diagnostics: released-by-name resolution searches scopes from the innermost outward
  through all enclosing scopes up to the module root.

  In any state, \<^verbatim>\<open>x = A(...)\<close> followed by the call \<^verbatim>\<open>x.m(...)\<close> inside any number
  of nested (plain or async) function definitions, with \<open>m\<close> a method that resolves to
  the kind of the acquisition, adds exactly one record, which is released; the scopes
  below the current one are untouched, and every line of the report afterwards was in
  the report before.
\<close>

theorem cross_scope_release:
  assumes ne: "scope_stack s \<noteq> []"
    and sig: "call_signature (scope_stack s) (Call i l f a k) = Some sig"
    and kd: "TARGET_SIGS sig = Some kd"
    and mk: "method_kind m = Some kd"
    and x: "x \<noteq> []"
    and q: "quiet (scope_stack s) f \<and> list_all (quiet (scope_stack s)) (a @ k @ a' @ k')"
  shows "\<exists>s'. visit_list [Assign [Name x] (Call i l f a k),
             nested_def bs (Other [Call i' l' (Attribute (Name x) m) a' k'])] s = Some s' \<and>
     scope_stack s' \<noteq> [] \<and> butlast (scope_stack s') = butlast (scope_stack s) \<and>
     length (records s') = Suc (length (records s)) \<and>
     records s' ! length (records s) = \<lparr>name = Some x, kind = kd, lineno = l, released = True\<rparr> \<and>
     mset (report path s') \<subseteq># mset (report path s)"
proof -
  let ?r = "\<lparr>name = Some x, kind = kd, lineno = l, released = False\<rparr>"
  let ?r' = "\<lparr>name = Some x, kind = kd, lineno = l, released = True\<rparr>"
  from q have qa: "quiet (scope_stack s) f" "list_all (quiet (scope_stack s)) (a @ k)"
    and qr: "list_all (quiet (scope_stack s)) (a' @ k')" by simp_all
  from visit_assign_acquisition[OF ne sig kd x qa] obtain s1 es where
    v1: "visit (Assign [Name x] (Call i l f a k)) s = Some s1"
    and r1: "records s1 = records s @ [?r]"
    and ne1: "scope_stack s1 \<noteq> []" and bl: "butlast (scope_stack s1) = butlast (scope_stack s)"
    and ma: "map aliases (scope_stack s1) = map aliases (scope_stack s)"
    and bn: "by_name (last (scope_stack s1)) x = Some (es @ [length (records s)])"
    by blast
  have qr1: "list_all (quiet (scope_stack s1)) (a' @ k')"
    using qr quiet_aliases[OF ma] by (simp add: list_all_iff)
  let ?sm = "mark_released (Some x) (Some kd) s1"
  from visit_nested_release[OF mk qr1, of bs i' l' x] obtain s' where
    v2: "visit (nested_def bs (Other [Call i' l' (Attribute (Name x) m) a' k'])) s1 = Some s'"
    and step: "release_step {''asyncio_task''} ?sm s'"
    and eq: "kd = ''asyncio_task'' \<longrightarrow> s' = ?sm"
    by blast
  have sm: "?sm = s1\<lparr>records := (records s1)[length (records s) := (records s1 ! length (records s))\<lparr>released := True\<rparr>]\<rparr>"
    by (rule mark_released_top[OF ne1 bn _ _ x]) (simp_all add: r1)
  have rsm: "records ?sm = records s @ [?r']"
    unfolding sm by (simp add: r1)
  from released_after_release[OF step eq rsm] obtain xs' where
    rs': "records s' = xs' @ [?r']" and mx: "marks {''asyncio_task''} (records s) xs'"
    by auto
  from mx have len: "length xs' = length (records s)" by (simp add: marks_def)
  have st': "scope_stack s' = scope_stack s1"
    using step by (simp add: release_step_def mark_released_def split: option.splits)
  have v: "visit_list [Assign [Name x] (Call i l f a k),
             nested_def bs (Other [Call i' l' (Attribute (Name x) m) a' k'])] s = Some s'"
    unfolding visit_list_Cons_Some[OF v1] visit_list_single by (rule v2)
  have "mset (report path s') =
      image_mset (format_issue path) (filter_mset (\<lambda>r. \<not> released r) (mset xs'))"
    by (simp add: mset_report rs')
  also have "\<dots> \<subseteq># mset (report path s)"
    unfolding mset_report by (rule image_mset_subseteq_mono) (rule marks_unreleased[OF mx])
  finally have rep: "mset (report path s') \<subseteq># mset (report path s)" .
  from v st' ne1 bl rs' len rep show ?thesis
    by (auto simp: nth_append)
qed

text \<open>The theorem inside a function body, at \<^verbatim>\<open>fh = open(p)\<close> followed by
  \<^verbatim>\<open>async def inner(): fh.close()\<close>: no diagnostic.\<close>

theorem cross_scope_release_witness:
  "scope_stack (push_scope new_Analyzer) \<noteq> [] \<and>
   call_signature (scope_stack (push_scope new_Analyzer)) (Call 1 5 (Name ''open'') [Other []] [])
     = Some (None, ''open'') \<and>
   TARGET_SIGS (None, ''open'') = Some ''file_handle'' \<and>
   method_kind ''close'' = Some ''file_handle'' \<and>
   ''fh'' \<noteq> [] \<and>
   quiet (scope_stack (push_scope new_Analyzer)) (Name ''open'') \<and>
   list_all (quiet (scope_stack (push_scope new_Analyzer))) ([Other []] @ [] @ [] @ []) \<and>
   (\<exists>s'. visit_list [Assign [Name ''fh''] (Call 1 5 (Name ''open'') [Other []] []),
             nested_def [True] (Other [Call 2 8 (Attribute (Name ''fh'') ''close'') [] []])]
            (push_scope new_Analyzer) = Some s' \<and>
         report ''nested.py'' s' = [])"
proof -
  let ?s = "push_scope new_Analyzer"
  have h1: "scope_stack ?s \<noteq> []" by simp
  have h2: "call_signature (scope_stack ?s) (Call 1 5 (Name ''open'') [Other []] [])
     = Some (None, ''open'')"
    by (simp add: push_scope_def new_Analyzer_def new_Scope_def lookup_alias_def)
  have h3: "TARGET_SIGS (None, ''open'') = Some ''file_handle''"
    by (simp add: TARGET_SIGS_def)
  have h4: "method_kind ''close'' = Some ''file_handle''"
    by (simp add: method_kind_simps)
  have h5: "''fh'' \<noteq> []" by simp
  have h6: "quiet (scope_stack ?s) (Name ''open'') \<and>
     list_all (quiet (scope_stack ?s)) ([Other []] @ [] @ [] @ [])"
    by simp
  have r: "report ''nested.py'' ?s = []"
    by (simp add: report_def push_scope_def new_Analyzer_def)
  from cross_scope_release[OF h1 h2 h3 h4 h5 h6, of "[True]" 2 8 "''nested.py''"] r
  have "\<exists>s'. visit_list [Assign [Name ''fh''] (Call 1 5 (Name ''open'') [Other []] []),
             nested_def [True] (Other [Call 2 8 (Attribute (Name ''fh'') ''close'') [] []])]
            ?s = Some s' \<and> report ''nested.py'' s' = []"
    by auto
  with h1 h2 h3 h4 h5 h6 show ?thesis by blast
qed

text \<open>
  Claim C7. Let \<open>c\<close> be a call whose canonical signature is one of the task-consuming
  combinators, \<open>arg\<close> one of its positional or keyword arguments, and \<open>leaf\<close> a name or
  call reached from \<open>arg\<close> through starred expressions and tuple, list and set displays.
  If \<open>leaf\<close> is a name, the task record it denotes is released once the release handler
  has run on \<open>c\<close>, and it is still released after any further traversal. If \<open>leaf\<close> is a
  task-creation call, its identity is in \<^verbatim>\<open>safe_calls\<close> from then on, so that recording it
  adds no record. In both cases no diagnostic is produced for that task, a diagnostic
  being produced for unreleased records only.
\<close>

theorem task_combinator_consumes:
  assumes "call_signature (scope_stack s) (Call i l f a k) = Some sig"
    and "sig \<in> TASK_RELEASE_SIGS"
    and "arg \<in> set (a @ k)"
    and "leaf \<in> set (task_leaves arg)"
  shows "(\<forall>x j. leaf = Name x \<and> x \<noteq> [] \<and> j < length (records s) \<and>
        bound_record (rev (scope_stack s)) x ''asyncio_task'' (records s) = Some j \<longrightarrow>
        released (records (handle_release (Call i l f a k) s) ! j) \<and>
        (\<forall>n t t'. later (handle_release (Call i l f a k) s) t \<and> visit n t = Some t' \<longrightarrow>
           j < length (records t') \<and> released (records t' ! j))) \<and>
     (\<forall>i' l' f' a' k' sig'. leaf = Call i' l' f' a' k' \<and>
        call_signature (scope_stack s) leaf = Some sig' \<and>
        TARGET_SIGS sig' = Some ''asyncio_task'' \<longrightarrow>
        i' \<in> safe_calls (handle_release (Call i l f a k) s) \<and>
        (\<forall>n t t'. later (handle_release (Call i l f a k) s) t \<and> visit n t = Some t' \<longrightarrow>
           i' \<in> safe_calls t' \<and> record_call leaf t = Some t))"
proof (intro conjI allI impI)
  let ?s' = "handle_release (Call i l f a k) s"
  have td: "task_done leaf s ?s'" using assms by (rule handle_release_task_done)
  have len: "length (records ?s') = length (records s)"
    using handle_release_step[of s "Call i l f a k"] by (simp add: release_step_def marks_def)
  {
    fix x j
    assume h: "leaf = Name x \<and> x \<noteq> [] \<and> j < length (records s) \<and>
        bound_record (rev (scope_stack s)) x ''asyncio_task'' (records s) = Some j"
    with td show r: "released (records ?s' ! j)" unfolding task_done_def by blast
    fix n t t'
    assume lt: "later ?s' t \<and> visit n t = Some t'"
    then have "later t t'" using visit_later_all(1)[of n t] by blast
    with lt have "later ?s' t'" by (blast intro: later_trans)
    from later_released[OF this _ r] h len
    show "j < length (records t')" "released (records t' ! j)" by simp_all
  }
  {
    fix i' l' f' a' k' sig'
    assume h: "leaf = Call i' l' f' a' k' \<and>
        call_signature (scope_stack s) leaf = Some sig' \<and>
        TARGET_SIGS sig' = Some ''asyncio_task''"
    with td show sf: "i' \<in> safe_calls ?s'" unfolding task_done_def by blast
    fix n t t'
    assume lt: "later ?s' t \<and> visit n t = Some t'"
    then have "later t t'" using visit_later_all(1)[of n t] by blast
    with lt have "later ?s' t'" by (blast intro: later_trans)
    from later_safe[OF this sf] show "i' \<in> safe_calls t'" .
    from lt sf have "i' \<in> safe_calls t" by (blast intro: later_safe)
    with h show "record_call leaf t = Some t" by (simp add: record_call_safe)
  }
qed

text \<open>The theorem at \<^verbatim>\<open>asyncio.gather(task, *[asyncio.create_task(f())])\<close>, the name
  \<^verbatim>\<open>task\<close> bound to a task record: the record is released and the fresh call is safe.\<close>

theorem task_combinator_consumes_witness:
  "call_signature
     (scope_stack
       \<lparr>records = [\<lparr>name = Some ''task'', kind = ''asyncio_task'', lineno = 2, released = False\<rparr>],
        safe_calls = {}, assigned_calls = {1},
        scope_stack = [\<lparr>aliases = [''asyncio'' \<mapsto> (Some ''asyncio'', None)],
                        by_name = [''task'' \<mapsto> [0]]\<rparr>]\<rparr>)
     (Call 5 3 (Attribute (Name ''asyncio'') ''gather'')
        [Name ''task'',
         Starred (List [Call 6 3 (Attribute (Name ''asyncio'') ''create_task'') [Other []] []])] [])
     = Some (Some ''asyncio'', ''gather'') \<and>
   (Some ''asyncio'', ''gather'') \<in> TASK_RELEASE_SIGS \<and>
   Name ''task'' \<in> set (task_leaves (Name ''task'')) \<and>
   Call 6 3 (Attribute (Name ''asyncio'') ''create_task'') [Other []] []
     \<in> set (task_leaves
         (Starred (List [Call 6 3 (Attribute (Name ''asyncio'') ''create_task'') [Other []] []]))) \<and>
   released (records (handle_release
     (Call 5 3 (Attribute (Name ''asyncio'') ''gather'')
        [Name ''task'',
         Starred (List [Call 6 3 (Attribute (Name ''asyncio'') ''create_task'') [Other []] []])] [])
     \<lparr>records = [\<lparr>name = Some ''task'', kind = ''asyncio_task'', lineno = 2, released = False\<rparr>],
      safe_calls = {}, assigned_calls = {1},
      scope_stack = [\<lparr>aliases = [''asyncio'' \<mapsto> (Some ''asyncio'', None)],
                      by_name = [''task'' \<mapsto> [0]]\<rparr>]\<rparr>) ! 0) \<and>
   6 \<in> safe_calls (handle_release
     (Call 5 3 (Attribute (Name ''asyncio'') ''gather'')
        [Name ''task'',
         Starred (List [Call 6 3 (Attribute (Name ''asyncio'') ''create_task'') [Other []] []])] [])
     \<lparr>records = [\<lparr>name = Some ''task'', kind = ''asyncio_task'', lineno = 2, released = False\<rparr>],
      safe_calls = {}, assigned_calls = {1},
      scope_stack = [\<lparr>aliases = [''asyncio'' \<mapsto> (Some ''asyncio'', None)],
                      by_name = [''task'' \<mapsto> [0]]\<rparr>]\<rparr>)"
proof -
  let ?s = "\<lparr>records = [\<lparr>name = Some ''task'', kind = ''asyncio_task'', lineno = 2, released = False\<rparr>],
      safe_calls = {}, assigned_calls = {1},
      scope_stack = [\<lparr>aliases = [''asyncio'' \<mapsto> (Some ''asyncio'', None)],
                      by_name = [''task'' \<mapsto> [0]]\<rparr>]\<rparr>"
  let ?fresh = "Call 6 3 (Attribute (Name ''asyncio'') ''create_task'') [Other []] []"
  let ?a = "[Name ''task'', Starred (List [?fresh])]"
  let ?c = "Call 5 3 (Attribute (Name ''asyncio'') ''gather'') ?a []"
  have h1: "call_signature (scope_stack ?s) ?c = Some (Some ''asyncio'', ''gather'')"
    by (simp add: lookup_alias_def py_or_def)
  have h2: "(Some ''asyncio'', ''gather'') \<in> TASK_RELEASE_SIGS"
    by (simp add: TASK_RELEASE_SIGS_def)
  have a1: "Name ''task'' \<in> set (?a @ [])" by simp
  have a2: "Starred (List [?fresh]) \<in> set (?a @ [])" by simp
  have l1: "Name ''task'' \<in> set (task_leaves (Name ''task''))" by simp
  have l2: "?fresh \<in> set (task_leaves (Starred (List [?fresh])))" by simp
  have b: "bound_record (rev (scope_stack ?s)) ''task'' ''asyncio_task'' (records ?s) = Some 0"
    by simp
  have fs: "call_signature (scope_stack ?s) ?fresh = Some (Some ''asyncio'', ''create_task'')"
    by (simp add: lookup_alias_def py_or_def)
  have ft: "TARGET_SIGS (Some ''asyncio'', ''create_task'') = Some ''asyncio_task''"
    by (simp add: TARGET_SIGS_def)
  from task_combinator_consumes[OF h1 h2 a1 l1] b
  have r1: "released (records (handle_release ?c ?s) ! 0)" by simp
  from task_combinator_consumes[OF h1 h2 a2 l2] fs ft
  have r2: "6 \<in> safe_calls (handle_release ?c ?s)" by blast
  from h1 h2 l1 l2 r1 r2 show ?thesis by blast
qed

text \<open>
  Claim C4, as stated: every acquisition call that appears in the context expression of
  a \<^verbatim>\<open>with\<close> item is marked safe and yields no diagnostic. The marking descends from
  the context expression through call arguments and attribute receivers only, not into
  the callee of a call, so the statement fails for an acquisition whose result receives
  a method call in the context expression. In
  \<^verbatim>\<open>import socket\<close>, \<^verbatim>\<open>with socket.socket().makefile() as f: ...\<close>
  the call \<^verbatim>\<open>socket.socket()\<close> is not marked safe and is reported.
\<close>

theorem callee_acquisition_in_context_is_reported:
  "\<exists>s'. visit (Module [Import [(''socket'', None)],
           With [(Call 1 2 (Attribute (Call 2 2 (Attribute (Name ''socket'') ''socket'') [] [])
                    ''makefile'') [] [], Some (Name ''f''))] [Other []]]) new_Analyzer = Some s' \<and>
      2 \<notin> safe_calls s' \<and>
      report ''t.py'' s' =
        [''t.py:2'' @ [CHR 0x09] @ ''socket_handle'' @ [CHR 0x09]
           @ ''Socket socket_handle opened without close()'']"
  by (simp add: analyzer_defs report_defs)

text \<open>
  Claim C4, amended to the calls that the marking reaches. Let \<open>c\<close> be an acquisition
  call that is the context expression of an item of a \<^verbatim>\<open>with\<close> or \<^verbatim>\<open>async with\<close>
  statement, or that is reached from it through positional and keyword arguments of
  calls and through attribute receivers. The statement is traversed from the state in
  which the context expressions have been marked; in that state \<open>c\<close> is in
  \<^verbatim>\<open>safe_calls\<close> and no record has been added; and in every later state \<open>c\<close> is
  still safe, so that recording it changes nothing: \<open>c\<close> never gets a record, hence no
  diagnostic, whether or not a release call appears anywhere.
\<close>

theorem context_acquisition_is_safe:
  assumes "item \<in> set items"
    and "Call i l f a k \<in> set (context_calls (fst item))"
    and "call_signature (scope_stack s) (Call i l f a k) = Some sig"
    and "TARGET_SIGS sig = Some kd"
  shows "visit (With items body) s =
       visit_items items (mark_context_safe items s) \<bind> visit_list body \<and>
     visit (AsyncWith items body) s =
       visit_items items (mark_context_safe items s) \<bind> visit_list body \<and>
     i \<in> safe_calls (mark_context_safe items s) \<and>
     records (mark_context_safe items s) = records s \<and>
     (\<forall>n t t'. later (mark_context_safe items s) t \<and> visit n t = Some t' \<longrightarrow>
        i \<in> safe_calls t' \<and> record_call (Call i l f a k) t = Some t)"
proof (intro conjI allI impI)
  let ?s' = "mark_context_safe items s"
  show "visit (With items body) s = visit_items items ?s' \<bind> visit_list body" by simp
  show "visit (AsyncWith items body) s = visit_items items ?s' \<bind> visit_list body" by simp
  show sf: "i \<in> safe_calls ?s'" using assms by (rule context_item_marked)
  have "marks {} (records s) (records ?s')"
    using mark_context_safe_step[of s items] by (simp add: release_step_def)
  then show "records ?s' = records s"
    by (auto simp: marks_def intro: nth_equalityI)
  fix n t t'
  assume lt: "later ?s' t \<and> visit n t = Some t'"
  then have "later t t'" using visit_later_all(1)[of n t] by blast
  with lt have "later ?s' t'" by (blast intro: later_trans)
  from later_safe[OF this sf] show "i \<in> safe_calls t'" .
  from lt sf have "i \<in> safe_calls t" by (blast intro: later_safe)
  then show "record_call (Call i l f a k) t = Some t" by (rule record_call_safe)
qed

text \<open>The theorem at \<^verbatim>\<open>with closing(socket.socket()) as s: s\<close>, after
  \<^verbatim>\<open>import socket\<close>: the socket call, an argument of the context expression, is
  marked safe, and the statement leaves no diagnostic.\<close>

theorem context_acquisition_is_safe_witness:
  "(Call 1 3 (Name ''closing'') [Call 2 3 (Attribute (Name ''socket'') ''socket'') [] []] [],
      Some (Name ''s''))
     \<in> set [(Call 1 3 (Name ''closing'') [Call 2 3 (Attribute (Name ''socket'') ''socket'') [] []] [],
             Some (Name ''s''))] \<and>
   Call 2 3 (Attribute (Name ''socket'') ''socket'') [] []
     \<in> set (context_calls (fst
         (Call 1 3 (Name ''closing'') [Call 2 3 (Attribute (Name ''socket'') ''socket'') [] []] [],
          Some (Name ''s'')))) \<and>
   call_signature
     (scope_stack
        \<lparr>records = [], safe_calls = {}, assigned_calls = {},
         scope_stack = [\<lparr>aliases = [''socket'' \<mapsto> (Some ''socket'', None)],
                         by_name = Map.empty\<rparr>]\<rparr>)
     (Call 2 3 (Attribute (Name ''socket'') ''socket'') [] []) = Some (Some ''socket'', ''socket'') \<and>
   TARGET_SIGS (Some ''socket'', ''socket'') = Some ''socket_handle'' \<and>
   2 \<in> safe_calls (mark_context_safe
     [(Call 1 3 (Name ''closing'') [Call 2 3 (Attribute (Name ''socket'') ''socket'') [] []] [],
       Some (Name ''s''))]
     \<lparr>records = [], safe_calls = {}, assigned_calls = {},
      scope_stack = [\<lparr>aliases = [''socket'' \<mapsto> (Some ''socket'', None)],
                      by_name = Map.empty\<rparr>]\<rparr>) \<and>
   (\<exists>s'. visit (With
       [(Call 1 3 (Name ''closing'') [Call 2 3 (Attribute (Name ''socket'') ''socket'') [] []] [],
         Some (Name ''s''))] [Other [Name ''s'']])
       \<lparr>records = [], safe_calls = {}, assigned_calls = {},
        scope_stack = [\<lparr>aliases = [''socket'' \<mapsto> (Some ''socket'', None)],
                        by_name = Map.empty\<rparr>]\<rparr> = Some s' \<and>
      2 \<in> safe_calls s' \<and> report ''t.py'' s' = [])"
proof -
  let ?s = "\<lparr>records = [], safe_calls = {}, assigned_calls = {},
      scope_stack = [\<lparr>aliases = [''socket'' \<mapsto> (Some ''socket'', None)],
                      by_name = Map.empty\<rparr>]\<rparr>"
  let ?c = "Call 2 3 (Attribute (Name ''socket'') ''socket'') [] []"
  let ?item = "(Call 1 3 (Name ''closing'') [?c] [], Some (Name ''s''))"
  let ?w = "With [?item] [Other [Name ''s'']]"
  have h1: "?item \<in> set [?item]" by simp
  have h2: "?c \<in> set (context_calls (fst ?item))" by simp
  have h3: "call_signature (scope_stack ?s) ?c = Some (Some ''socket'', ''socket'')"
    by (simp add: lookup_alias_def py_or_def)
  have h4: "TARGET_SIGS (Some ''socket'', ''socket'') = Some ''socket_handle''"
    by (simp add: TARGET_SIGS_def)
  note cas = context_acquisition_is_safe[OF h1 h2 h3 h4, of "[Other [Name ''s'']]"]
  from cas have sf: "2 \<in> safe_calls (mark_context_safe [?item] ?s)" by blast
  have "\<exists>s'. visit ?w ?s = Some s' \<and> 2 \<in> safe_calls s' \<and> report ''t.py'' s' = []"
    by (simp add: analyzer_defs report_defs)
  with h1 h2 h3 h4 sf show ?thesis by blast
qed

text \<open>
  Claim C8: a source that cannot be read and a source that cannot be parsed are
  recovered locally, with a warning apart from the findings and no finding for the file,
  and no failure inside the analyzer aborts the batch.

  What \<^verbatim>\<open>analyze\<close> does, for any environment: an \<^verbatim>\<open>OSError\<close> on reading and a
  \<^verbatim>\<open>SyntaxError\<close> on parsing each give one warning and no finding; on a tree that
  parsed, the traversal always returns, with no warning. But \<^verbatim>\<open>analyze\<close> reads the
  file as UTF-8 and catches \<^verbatim>\<open>OSError\<close> only: on a file whose bytes are not valid
  UTF-8 the read raises \<^verbatim>\<open>UnicodeDecodeError\<close>, which leaves \<^verbatim>\<open>analyze\<close> and then
  the loop of \<^verbatim>\<open>main\<close>, whatever was found in the files before it.
\<close>

theorem analyze_failure_modes:
  "analyze (env\<lparr>read_text := \<lambda>p. Inl (OSError e)\<rparr>) path root =
     Inr ([''WARN: Could not read '' @ path @ '': '' @ e], []) \<and>
   analyze (env\<lparr>read_text := \<lambda>p. Inr text, parse := \<lambda>t. Inl (SyntaxError e)\<rparr>) path root =
     Inr ([''WARN: Syntax error in '' @ path @ '': '' @ e], []) \<and>
   (\<exists>found. analyze (env\<lparr>read_text := \<lambda>p. Inr text, parse := \<lambda>t. Inr tree\<rparr>) path root =
     Inr ([], found)) \<and>
   analyze (env\<lparr>read_text := \<lambda>p. Inl (UnicodeDecodeError e)\<rparr>) path root =
     Inl (UnicodeDecodeError e) \<and>
   main_loop (env\<lparr>read_text := \<lambda>p. Inl (UnicodeDecodeError e)\<rparr>) root (path # paths) acc =
     Inl (UnicodeDecodeError e)"
proof (intro conjI)
  show "analyze (env\<lparr>read_text := \<lambda>p. Inl (OSError e)\<rparr>) path root =
     Inr ([''WARN: Could not read '' @ path @ '': '' @ e], [])"
    by (simp add: analyze_def)
  show "analyze (env\<lparr>read_text := \<lambda>p. Inr text, parse := \<lambda>t. Inl (SyntaxError e)\<rparr>) path root =
     Inr ([''WARN: Syntax error in '' @ path @ '': '' @ e], [])"
    by (simp add: analyze_def)
  have "scope_stack new_Analyzer \<noteq> []" by (simp add: new_Analyzer_def)
  with visit_ok_all(1)[of new_Analyzer tree] obtain s where "visit tree new_Analyzer = Some s"
    by blast
  then show "\<exists>found. analyze (env\<lparr>read_text := \<lambda>p. Inr text, parse := \<lambda>t. Inr tree\<rparr>) path root =
     Inr ([], found)"
    by (simp add: analyze_def Let_def)
  show a: "analyze (env\<lparr>read_text := \<lambda>p. Inl (UnicodeDecodeError e)\<rparr>) path root =
     Inl (UnicodeDecodeError e)"
    by (simp add: analyze_def)
  show "main_loop (env\<lparr>read_text := \<lambda>p. Inl (UnicodeDecodeError e)\<rparr>) root (path # paths) acc =
     Inl (UnicodeDecodeError e)"
    by (cases acc) (simp add: a)
qed

text \<open>The theorem at a batch whose first file \<^verbatim>\<open>bad.py\<close> is not valid UTF-8: the
  exception is the result of the whole loop.\<close>

theorem analyze_failure_modes_witness:
  "main_loop
     (\<lparr>read_text = \<lambda>p. Inr [], parse = \<lambda>t. Inr (Module []), relative_to = \<lambda>p r. None\<rparr>
        \<lparr>read_text := \<lambda>p. Inl (UnicodeDecodeError ''invalid continuation byte'')\<rparr>)
     ''proj'' [''proj/bad.py'', ''proj/good.py''] ([], []) =
   Inl (UnicodeDecodeError ''invalid continuation byte'')"
  using analyze_failure_modes[where
      env = "\<lparr>read_text = \<lambda>p. Inr [], parse = \<lambda>t. Inr (Module []), relative_to = \<lambda>p r. None\<rparr>"
      and e = "''invalid continuation byte''" and path = "''proj/bad.py''" and root = "''proj''"
      and paths = "[''proj/good.py'']" and acc = "([], [])"]
  by blast




end
